theory Spec2Isabelle
  imports Main "HOL-Library.Sublist" "HOL-Library.Multiset"
begin

section \<open>The port scanner of \<^verbatim>\<open>port_scanner.c\<close>\<close>

text \<open>
  The program is one C file: \<^verbatim>\<open>main\<close> fills a job queue with the ports of a range and
  starts \<^verbatim>\<open>num_threads\<close> threads running \<^verbatim>\<open>worker\<close>; every worker takes ports from
  the queue with \<^verbatim>\<open>get_next_port\<close>, connects, optionally reads a banner, and prints one
  line per open port to the console and to \<^verbatim>\<open>scan_results.txt\<close>.

  C's \<^verbatim>\<open>int\<close> is modelled by \<^typ>\<open>int\<close>. The theorems about queues built by \<^verbatim>\<open>main\<close>
  assume a range of ports \<open>1 \<le> start \<le> end \<le> 65535\<close>; every value the program computes
  from such a range lies between \<open>-1\<close> and \<open>65536\<close>, so no 32-bit operation wraps
  (lemma \<open>values_stay_small\<close> below). Bytes are \<^typ>\<open>char\<close> (8 bits).

  Memory management (\<^verbatim>\<open>malloc\<close> and \<^verbatim>\<open>free\<close> of the thread arguments and of the array),
  the start-up and shutdown of Winsock, the parsing of the command line and the timing
  statistics are not modelled: no claim is about them.
\<close>

subsection \<open>The job queue\<close>

text \<open>
  \<^verbatim>\<open>typedef struct { int *ports; int size; int index; pthread_mutex_t lock; } JobQueue;\<close>
  The array is a list. The mutex is not a field here: in the sequential reading below
  every call of \<^verbatim>\<open>get_next_port\<close> is one step, and the system of threads further down
  carries the owner of the lock in its state.
\<close>

record JobQueue =
  ports :: "int list"
  size_q :: int
  index :: int

text \<open>A read outside the array is undefined behaviour in C; the model makes it a fault.\<close>

datatype fault = OutOfBounds

text \<open>
  \<^verbatim>\<open>if (q->index >= q->size) return -1;  int port = q->ports[q->index++];  return port;\<close>
\<close>

definition get_next_port :: "JobQueue \<Rightarrow> fault + (int \<times> JobQueue)" where
  "get_next_port q =
     (if index q \<ge> size_q q then Inr (- 1, q)
      else if 0 \<le> index q \<and> nat (index q) < length (ports q)
        then Inr (ports q ! nat (index q), q\<lparr>index := index q + 1\<rparr>)
        else Inl OutOfBounds)"

text \<open>
  The queue as \<^verbatim>\<open>main\<close> builds it (lines 129 to 142), on the path where \<^verbatim>\<open>malloc\<close>
  succeeds:
  \<^verbatim>\<open>q.size = end - start + 1; q.ports = malloc(q.size * sizeof(int)); q.index = 0;
  for (int i = 0; i < q.size; i++) q.ports[i] = start + i;\<close>
  The fresh block holds arbitrary values, given by \<open>garbage\<close>.
\<close>

function fill_ports :: "int \<Rightarrow> int \<Rightarrow> int \<Rightarrow> int list \<Rightarrow> int list" where
  "fill_ports start sz i ps =
     (if i < sz then fill_ports start sz (i + 1) (ps[nat i := start + i]) else ps)"
  by pat_completeness auto
termination
  by (relation "measure (\<lambda>(start, sz, i, ps). nat (sz - i))") auto

definition init_queue :: "(nat \<Rightarrow> int) \<Rightarrow> int \<Rightarrow> int \<Rightarrow> JobQueue" where
  "init_queue garbage start end =
     (let sz = end - start + 1
      in \<lparr>ports = fill_ports start sz 0 (map garbage [0..<nat sz]), size_q = sz, index = 0\<rparr>)"

text \<open>
  \<open>serve\<close> is not a function of the program: it makes the calls of a list of callers,
  one after the other, in the order in which the callers obtain \<^verbatim>\<open>q->lock\<close>. Each result
  is paired with the caller that made the call.
\<close>

fun serve :: "'c list \<Rightarrow> JobQueue \<Rightarrow> fault + (('c \<times> int) list \<times> JobQueue)" where
  "serve [] q = Inr ([], q)"
| "serve (c # cs) q =
     (case get_next_port q of
        Inl f \<Rightarrow> Inl f
      | Inr (p, q') \<Rightarrow>
          (case serve cs q' of
             Inl f \<Rightarrow> Inl f
           | Inr (rs, q'') \<Rightarrow> Inr ((c, p) # rs, q'')))"

text \<open>The shape every queue of the program has (an invariant, not code): the cursor
  lies between 0 and the size, and the size is the length of the array.\<close>

definition queue_ok :: "JobQueue \<Rightarrow> bool" where
  "queue_ok q \<longleftrightarrow> 0 \<le> index q \<and> index q \<le> size_q q \<and> size_q q = int (length (ports q))"

subsection \<open>Globals and the environment\<close>

text \<open>
  The globals a worker reads: \<^verbatim>\<open>int FULL_MODE = 1;\<close> (1 is the banner grab, 0 the fast
  mode) and \<^verbatim>\<open>int TIMEOUT_MS = 200;\<close>. \<^verbatim>\<open>main\<close> sets them before any thread starts.
\<close>

record globals =
  FULL_MODE :: int
  TIMEOUT_MS :: int

text \<open>
  What the operating system and the target answer. A worker probes a port at most
  once, so each answer is a function of the port being probed: the handle \<^verbatim>\<open>socket\<close>
  returns (\<open>None\<close> is \<^verbatim>\<open>INVALID_SOCKET\<close>), the result of \<^verbatim>\<open>connect\<close>, and the bytes the
  peer delivers to the first \<^verbatim>\<open>recv\<close> (\<open>None\<close> when the call fails or times out).
  \<open>stack\<close> is the content of the uninitialised buffer \<^verbatim>\<open>char banner[512]\<close>.
\<close>

type_synonym byte = char
type_synonym SOCKET = nat

record network =
  socket_result :: "int \<Rightarrow> SOCKET option"
  connect_result :: "int \<Rightarrow> int"
  recv_data :: "int \<Rightarrow> byte list option"
  stack :: "nat \<Rightarrow> byte"

text \<open>
  \<^verbatim>\<open>target.sin_port = htons(port)\<close>: the argument is converted to a 16-bit value, so the
  port of the address is \<open>port mod 65536\<close>.
\<close>

definition htons :: "int \<Rightarrow> int" where
  "htons port = port mod 65536"

text \<open>
  \<^verbatim>\<open>recv(s, buf, len, 0)\<close> stores at most \<open>len\<close> of the delivered bytes at the start of
  the buffer and returns their number; it returns \<open>-1\<close> (\<^verbatim>\<open>SOCKET_ERROR\<close>) on failure.
\<close>

definition recv :: "byte list option \<Rightarrow> byte list \<Rightarrow> nat \<Rightarrow> int \<times> byte list" where
  "recv incoming buf len =
     (case incoming of
        None \<Rightarrow> (- 1, buf)
      | Some bs \<Rightarrow> (int (length (take len bs)), take len bs @ drop (length (take len bs)) buf))"

subsection \<open>Text output\<close>

definition NUL :: byte where "NUL = CHR 0x00"
definition NL :: byte where "NL = CHR 0x0A"
definition ESC :: byte where "ESC = CHR 0x1B"

text \<open>\<^verbatim>\<open>#define COLOR_GREEN  "\x1b[32m"\<close> and \<^verbatim>\<open>#define COLOR_RESET  "\x1b[0m"\<close>\<close>

definition COLOR_GREEN :: string where "COLOR_GREEN = ESC # ''[32m''"
definition COLOR_RESET :: string where "COLOR_RESET = ESC # ''[0m''"

text \<open>The conversions \<^verbatim>\<open>%d\<close> (decimal) and \<^verbatim>\<open>%s\<close> (the bytes before the first NUL).\<close>

fun digits :: "nat \<Rightarrow> string" where
  "digits n = (if n < 10 then [''0123456789'' ! n]
               else digits (n div 10) @ [''0123456789'' ! (n mod 10)])"

declare digits.simps [simp del]

definition fmt_d :: "int \<Rightarrow> string" where
  "fmt_d i = (if i < 0 then CHR ''-'' # digits (nat (- i)) else digits (nat i))"

definition fmt_s :: "byte list \<Rightarrow> string" where
  "fmt_s buf = takeWhile (\<lambda>c. c \<noteq> NUL) buf"

text \<open>\<^verbatim>\<open>const char* service_name(int port)\<close>, lines 208 to 227.\<close>

definition service_name :: "int \<Rightarrow> string" where
  "service_name port =
     (if port = 20 \<or> port = 21 then ''FTP''
      else if port = 22 then ''SSH''
      else if port = 23 then ''Telnet''
      else if port = 25 then ''SMTP''
      else if port = 53 then ''DNS''
      else if port = 80 then ''HTTP''
      else if port = 110 then ''POP3''
      else if port = 139 then ''NetBIOS''
      else if port = 143 then ''IMAP''
      else if port = 389 then ''LDAP''
      else if port = 443 then ''HTTPS''
      else if port = 445 then ''SMB''
      else if port = 3306 then ''MySQL''
      else if port = 3389 then ''RDP''
      else [])"

text \<open>
  The text \<^verbatim>\<open>printf\<close> writes to the console (lines 266 to 299). In the branch
  \<^verbatim>\<open>n > 0\<close> the buffer is first terminated: \<^verbatim>\<open>banner[n] = '\0';\<close>.
\<close>

definition console_line :: "int \<Rightarrow> int \<Rightarrow> int \<Rightarrow> byte list \<Rightarrow> string" where
  "console_line thread_id port n banner0 =
     (let svc = service_name port
      in if n > 0 then
           (let banner = banner0[nat n := NUL]
            in if svc \<noteq> [] then
                 COLOR_GREEN @ ''[Thread '' @ fmt_d thread_id @ ''] Port '' @ fmt_d port
                 @ '' OPEN'' @ COLOR_RESET @ '' - banner: '' @ fmt_s banner
                 @ '' ('' @ svc @ '')'' @ [NL]
               else
                 COLOR_GREEN @ ''[Thread '' @ fmt_d thread_id @ ''] Port '' @ fmt_d port
                 @ '' OPEN'' @ COLOR_RESET @ '' - banner: '' @ fmt_s banner @ [NL])
         else if svc \<noteq> [] then
           COLOR_GREEN @ ''[Thread '' @ fmt_d thread_id @ ''] Port '' @ fmt_d port
           @ '' OPEN ('' @ svc @ '')'' @ COLOR_RESET @ [NL]
         else
           COLOR_GREEN @ ''[Thread '' @ fmt_d thread_id @ ''] Port '' @ fmt_d port
           @ '' OPEN'' @ COLOR_RESET @ [NL])"

text \<open>The text \<^verbatim>\<open>fprintf\<close> writes to \<^verbatim>\<open>OUTPUT_FILE\<close> in the same branches.\<close>

definition file_line :: "int \<Rightarrow> int \<Rightarrow> int \<Rightarrow> byte list \<Rightarrow> string" where
  "file_line thread_id port n banner0 =
     (let svc = service_name port
      in if n > 0 then
           (let banner = banner0[nat n := NUL]
            in if svc \<noteq> [] then
                 ''[Thread '' @ fmt_d thread_id @ ''] Port '' @ fmt_d port
                 @ '' OPEN - banner: '' @ fmt_s banner @ '' ('' @ svc @ '')'' @ [NL]
               else
                 ''[Thread '' @ fmt_d thread_id @ ''] Port '' @ fmt_d port
                 @ '' OPEN - banner: '' @ fmt_s banner @ [NL])
         else if svc \<noteq> [] then
           ''[Thread '' @ fmt_d thread_id @ ''] Port '' @ fmt_d port
           @ '' OPEN ('' @ svc @ '')'' @ [NL]
         else
           ''[Thread '' @ fmt_d thread_id @ ''] Port '' @ fmt_d port @ '' OPEN'' @ [NL])"

subsection \<open>The worker\<close>

text \<open>
  A worker is modelled by the calls it makes, in order: the calls are what the claims
  speak about (one read, one release of the socket, the lines written).
\<close>

datatype sockopt = SO_RCVTIMEO | SO_SNDTIMEO

datatype event =
    E_get_next_port int
  | E_socket "SOCKET option"
  | E_setsockopt SOCKET sockopt int
  | E_connect SOCKET int int
  | E_recv SOCKET nat int
  | E_lock
  | E_printf string
  | E_fprintf string
  | E_fflush
  | E_unlock
  | E_closesocket SOCKET

text \<open>
  \<^verbatim>\<open>E_get_next_port p\<close>: the call returned \<open>p\<close>. \<^verbatim>\<open>E_connect s port r\<close>: \<^verbatim>\<open>connect\<close> on
  socket \<open>s\<close> to \<open>port\<close> returned \<open>r\<close>. \<^verbatim>\<open>E_recv s len n\<close>: \<^verbatim>\<open>recv\<close> with limit \<open>len\<close>
  returned \<open>n\<close>. \<^verbatim>\<open>E_lock\<close> and \<^verbatim>\<open>E_unlock\<close> are the calls on \<^verbatim>\<open>print_lock\<close>.

  The program has no type of probe outcomes. The three variants below name the three
  paths through the body of the loop: \<^verbatim>\<open>result != 0\<close> (line 256 not taken),
  \<^verbatim>\<open>result == 0\<close> with \<^verbatim>\<open>n > 0\<close> (line 266, with the bytes \<^verbatim>\<open>banner[0..n-1]\<close>), and
  \<^verbatim>\<open>result == 0\<close> with \<^verbatim>\<open>n <= 0\<close> (line 285).
\<close>

datatype outcome = Closed | OpenNoData | OpenWithBanner "byte list"

text \<open>How one pass through the body ends: at \<^verbatim>\<open>return NULL\<close> of line 248, or at the
  end of the body, from where the loop goes on.\<close>

datatype body_end = Returned | Looped outcome

text \<open>Lines 257 to 260: \<^verbatim>\<open>char banner[512]; int n = 0; if (FULL_MODE) n = recv(s, banner,
  sizeof(banner) - 1, 0);\<close>\<close>

definition read_banner :: "globals \<Rightarrow> network \<Rightarrow> SOCKET \<Rightarrow> int \<Rightarrow> event list \<times> int \<times> byte list" where
  "read_banner g e s port =
     (let banner = map (stack e) [0..<512]
      in if FULL_MODE g \<noteq> 0 then
           (case recv (recv_data e (htons port)) banner (512 - 1) of
              (n, banner') \<Rightarrow> ([E_recv s (512 - 1) n], n, banner'))
         else ([], 0, banner))"

text \<open>Lines 262 to 302: the two writes and the flush, between lock and unlock.\<close>

definition report :: "int \<Rightarrow> int \<Rightarrow> int \<Rightarrow> byte list \<Rightarrow> event list" where
  "report thread_id port n banner =
     [E_lock,
      E_printf (console_line thread_id port n banner),
      E_fprintf (file_line thread_id port n banner),
      E_fflush,
      E_unlock]"

text \<open>Lines 241 to 305: the body of the loop for the port just obtained.\<close>

definition worker_body :: "globals \<Rightarrow> network \<Rightarrow> int \<Rightarrow> int \<Rightarrow> event list \<times> body_end" where
  "worker_body g e thread_id port =
     (case socket_result e port of
        None \<Rightarrow> ([E_socket None], Returned)
      | Some s \<Rightarrow>
          (let timeout = TIMEOUT_MS g;
               result = connect_result e (htons port);
               opening = [E_socket (Some s),
                          E_setsockopt s SO_RCVTIMEO timeout,
                          E_setsockopt s SO_SNDTIMEO timeout,
                          E_connect s (htons port) result]
           in if result = 0 then
                (case read_banner g e s port of
                   (reading, n, banner) \<Rightarrow>
                     (opening @ reading @ report thread_id port n banner @ [E_closesocket s],
                      Looped (if n > 0 then OpenWithBanner (take (nat n) banner)
                              else OpenNoData)))
              else (opening @ [E_closesocket s], Looped Closed)))"

text \<open>
  Lines 236 to 308: \<^verbatim>\<open>while (1) { int port = get_next_port(q); if (port == -1) break; ... }\<close>
  for one thread running alone. The result is the calls made and the queue left behind.
\<close>

function worker :: "globals \<Rightarrow> network \<Rightarrow> int \<Rightarrow> JobQueue \<Rightarrow> fault + (event list \<times> JobQueue)" where
  "worker g e thread_id q =
     (case get_next_port q of
        Inl f \<Rightarrow> Inl f
      | Inr (port, q') \<Rightarrow>
          if port = - 1 then Inr ([E_get_next_port port], q')
          else
            (case worker_body g e thread_id port of
               (evs, Returned) \<Rightarrow> Inr (E_get_next_port port # evs, q')
             | (evs, Looped out) \<Rightarrow>
                 (case worker g e thread_id q' of
                    Inl f \<Rightarrow> Inl f
                  | Inr (evs', q'') \<Rightarrow> Inr (E_get_next_port port # evs @ evs', q''))))"
  by pat_completeness auto
termination
proof (relation "measure (\<lambda>(g, e, thread_id, q). nat (size_q q - index q))")
  show "wf (measure (\<lambda>(g, e, thread_id, q). nat (size_q q - index q)))"
    by simp
next
  fix g :: globals and e :: network and thread_id :: int and q :: JobQueue
    and x :: "int \<times> JobQueue" and port :: int and q' :: JobQueue
  assume "get_next_port q = Inr x" and "(port, q') = x" and "port \<noteq> - 1"
  then have "index q < size_q q \<and> q' = q\<lparr>index := index q + 1\<rparr>"
    by (auto simp: get_next_port_def split: if_splits)
  then show "((g, e, thread_id, q'), (g, e, thread_id, q))
               \<in> measure (\<lambda>(g, e, thread_id, q). nat (size_q q - index q))"
    by simp
qed

subsection \<open>Reading the calls of a worker\<close>

text \<open>Selections from a list of calls, used to state the claims.\<close>

fun is_recv :: "event \<Rightarrow> bool" where
  "is_recv (E_recv s len n) = True"
| "is_recv ev = False"

fun is_printf :: "event \<Rightarrow> bool" where
  "is_printf (E_printf l) = True"
| "is_printf ev = False"

fun is_fprintf :: "event \<Rightarrow> bool" where
  "is_fprintf (E_fprintf l) = True"
| "is_fprintf ev = False"

fun is_closesocket :: "event \<Rightarrow> bool" where
  "is_closesocket (E_closesocket s) = True"
| "is_closesocket ev = False"

fun is_get_next_port :: "event \<Rightarrow> bool" where
  "is_get_next_port (E_get_next_port p) = True"
| "is_get_next_port ev = False"

text \<open>
  The discipline of socket handles, checked along a list of calls by one thread: the
  thread holds at most one socket; \<^verbatim>\<open>socket\<close> is only called while it holds none;
  \<^verbatim>\<open>setsockopt\<close>, \<^verbatim>\<open>connect\<close>, \<^verbatim>\<open>recv\<close> and \<^verbatim>\<open>closesocket\<close> are only called on the
  socket it holds; \<^verbatim>\<open>closesocket\<close> ends the holding. The result is \<open>None\<close> as soon as
  a call breaks the discipline (a socket left open when the next is created, a socket
  closed twice, a call on a closed socket), and otherwise what the thread holds at the end.
\<close>

datatype holding = No_socket | Holding SOCKET

fun socket_use :: "holding \<Rightarrow> event list \<Rightarrow> holding option" where
  "socket_use h [] = Some h"
| "socket_use h (E_socket None # evs) =
     (if h = No_socket then socket_use No_socket evs else None)"
| "socket_use h (E_socket (Some s) # evs) =
     (if h = No_socket then socket_use (Holding s) evs else None)"
| "socket_use h (E_setsockopt s opt v # evs) =
     (if h = Holding s then socket_use h evs else None)"
| "socket_use h (E_connect s port r # evs) =
     (if h = Holding s then socket_use h evs else None)"
| "socket_use h (E_recv s len n # evs) =
     (if h = Holding s then socket_use h evs else None)"
| "socket_use h (E_closesocket s # evs) =
     (if h = Holding s then socket_use No_socket evs else None)"
| "socket_use h (ev # evs) = socket_use h evs"

subsection \<open>Concrete configurations\<close>

text \<open>
  The globals as the program initialises them (full mode, 200 ms), and after \<^verbatim>\<open>--fast\<close>.
\<close>

definition default_globals :: globals where
  "default_globals = \<lparr>FULL_MODE = 1, TIMEOUT_MS = 200\<rparr>"

definition fast_globals :: globals where
  "fast_globals = \<lparr>FULL_MODE = 0, TIMEOUT_MS = 200\<rparr>"

text \<open>
  A target with one listener, on port 80, that sends the three bytes \<^verbatim>\<open>hi\n\<close> on connect;
  every other port refuses the connection. Sockets are always available; the handle of
  the socket made for a port is the number of the port.
\<close>

definition listener_80 :: network where
  "listener_80 =
     \<lparr>socket_result = (\<lambda>port. Some (nat port)),
      connect_result = (\<lambda>port. if port = 80 then 0 else - 1),
      recv_data = (\<lambda>port. Some (''hi'' @ [NL])),
      stack = (\<lambda>i. CHR ''z'')\<rparr>"

text \<open>The same target, on a machine that cannot create a socket while port 79 is probed.\<close>

definition starved_at_79 :: network where
  "starved_at_79 = listener_80\<lparr>socket_result := (\<lambda>port. if port = 79 then None else Some (nat port))\<rparr>"

text \<open>A target with listeners on the ports 80 and 81.\<close>

definition listeners_80_81 :: network where
  "listeners_80_81 =
     listener_80\<lparr>connect_result := (\<lambda>port. if port = 80 \<or> port = 81 then 0 else - 1)\<rparr>"

definition zeroes :: "nat \<Rightarrow> int" where
  "zeroes i = 0"

subsection \<open>The format of a line of the log, as a specification\<close>

text \<open>
  This definition is not taken from the program: it states, in one expression, the form
  of a line of \<^verbatim>\<open>scan_results.txt\<close> that the four \<^verbatim>\<open>fprintf\<close> calls are compared with:
  \<^verbatim>\<open>[Thread <id>] Port <port> OPEN\<close>, then \<^verbatim>\<open> - banner: <bytes>\<close> when there is a banner
  (its bytes as they are, up to the first NUL byte), then \<^verbatim>\<open> (<service>)\<close> when the
  service name is not empty, then a newline.
\<close>

definition log_record_format :: "int \<Rightarrow> int \<Rightarrow> byte list option \<Rightarrow> string \<Rightarrow> string" where
  "log_record_format thread_id port banner svc =
     ''[Thread '' @ fmt_d thread_id @ ''] Port '' @ fmt_d port @ '' OPEN''
     @ (case banner of None \<Rightarrow> [] | Some b \<Rightarrow> '' - banner: '' @ takeWhile (\<lambda>c. c \<noteq> NUL) b)
     @ (if svc = [] then [] else '' ('' @ svc @ '')'')
     @ [NL]"

subsection \<open>The threads of a scan\<close>

text \<open>
  \<^verbatim>\<open>main\<close> bounds the number of threads (lines 116 and 117), starts this many threads on
  \<^verbatim>\<open>worker\<close> with the identifiers \<open>0, 1, \<dots>\<close> (lines 167 to 183) and waits for all of them
  (lines 186 and 187). The threads share the queue, its mutex \<^verbatim>\<open>q.lock\<close>, the mutex
  \<^verbatim>\<open>print_lock\<close>, the console and the file.

  The scan is modelled as a system that moves one thread at a time (an interleaving):
  the state holds the shared data and, for each thread, the place it has reached; a
  schedule is the list of the threads in the order in which they move. A mutex is the
  thread that holds it, if any; a thread whose next call is to lock a mutex held by
  another does not move.

  The places of a thread in \<^verbatim>\<open>worker\<close> and \<^verbatim>\<open>get_next_port\<close>:
  \<^item> \<open>At_top\<close>: line 237, about to lock \<^verbatim>\<open>q->lock\<close> (line 313);
  \<^item> \<open>In_queue\<close>: holding \<^verbatim>\<open>q->lock\<close>, about to test \<^verbatim>\<open>q->index >= q->size\<close> (line 315) and,
    if the test fails, to read \<^verbatim>\<open>q->index\<close> and \<^verbatim>\<open>q->ports[q->index]\<close> (line 320);
  \<^item> \<open>Taking i port\<close>: line 320, having read the index \<open>i\<close> and the port, about to store
    \<open>i + 1\<close> into \<^verbatim>\<open>q->index\<close> (the read and the write of \<^verbatim>\<open>q->index++\<close> are two moves, so
    that only the mutex keeps them together);
  \<^item> \<open>Leaving port\<close>: about to unlock \<^verbatim>\<open>q->lock\<close> and return \<open>port\<close> (lines 316 or 321);
  \<^item> \<open>In_body port evs fin\<close>: in the body of the loop for \<open>port\<close>, with the calls \<open>evs\<close>
    still to make, one per move, and \<open>fin\<close> the way the body ends;
  \<^item> \<open>Finished\<close>: returned from \<^verbatim>\<open>worker\<close>;
  \<^item> \<open>Crashed\<close>: after a read outside the array.
\<close>

definition clamp_threads :: "int \<Rightarrow> int" where
  "clamp_threads num_threads =
     (let n = (if num_threads < 1 then 1 else num_threads)
      in if n > 5000 then 5000 else n)"

datatype thread =
    At_top
  | In_queue
  | Taking int int
  | Leaving int
  | In_body int "event list" body_end
  | Finished
  | Crashed

text \<open>
  The trace is the list of the calls made so far, each with the thread that made it and
  the port this thread was handling. The console is the \<^verbatim>\<open>E_printf\<close> entries of the trace
  and the file its \<^verbatim>\<open>E_fprintf\<close> entries, in this order.
\<close>

record system =
  queue :: JobQueue
  queue_lock :: "nat option"
  print_lock :: "nat option"
  threads :: "thread list"
  trace :: "(nat \<times> int \<times> event) list"

definition start_threads :: "int \<Rightarrow> JobQueue \<Rightarrow> system" where
  "start_threads num_threads q =
     \<lparr>queue = q, queue_lock = None, print_lock = None,
      threads = replicate (nat num_threads) At_top, trace = []\<rparr>"

definition main_system :: "int \<Rightarrow> (nat \<Rightarrow> int) \<Rightarrow> int \<Rightarrow> int \<Rightarrow> system" where
  "main_system num_threads garbage start end =
     start_threads (clamp_threads num_threads) (init_queue garbage start end)"

text \<open>Where a thread is after a call of the body: at the next call, or behind the body.\<close>

fun after_body :: "int \<Rightarrow> event list \<Rightarrow> body_end \<Rightarrow> thread" where
  "after_body port [] Returned = Finished"
| "after_body port [] (Looped out) = At_top"
| "after_body port (ev # evs) fin = In_body port (ev # evs) fin"

text \<open>One move of thread \<open>w\<close>, which is at the place given as fourth argument.\<close>

fun thread_step :: "globals \<Rightarrow> network \<Rightarrow> nat \<Rightarrow> thread \<Rightarrow> system \<Rightarrow> system" where
  "thread_step g e w At_top s =
     (if queue_lock s = None
      then s\<lparr>queue_lock := Some w, threads := (threads s)[w := In_queue]\<rparr>
      else s)"
| "thread_step g e w In_queue s =
     (if index (queue s) \<ge> size_q (queue s)
      then s\<lparr>threads := (threads s)[w := Leaving (- 1)]\<rparr>
      else if 0 \<le> index (queue s) \<and> nat (index (queue s)) < length (ports (queue s))
        then s\<lparr>threads := (threads s)
                 [w := Taking (index (queue s)) (ports (queue s) ! nat (index (queue s)))]\<rparr>
        else s\<lparr>threads := (threads s)[w := Crashed]\<rparr>)"
| "thread_step g e w (Taking i port) s =
     s\<lparr>queue := (queue s)\<lparr>index := i + 1\<rparr>, threads := (threads s)[w := Leaving port]\<rparr>"
| "thread_step g e w (Leaving port) s =
     s\<lparr>queue_lock := None,
       trace := trace s @ [(w, port, E_get_next_port port)],
       threads := (threads s)
         [w := (if port = - 1 then Finished
                else (case worker_body g e (int w) port of
                        (evs, fin) \<Rightarrow> after_body port evs fin))]\<rparr>"
| "thread_step g e w (In_body port [] fin) s =
     s\<lparr>threads := (threads s)[w := after_body port [] fin]\<rparr>"
| "thread_step g e w (In_body port (ev # evs) fin) s =
     (if ev = E_lock \<and> print_lock s \<noteq> None then s
      else s\<lparr>print_lock := (if ev = E_lock then Some w
                            else if ev = E_unlock then None
                            else print_lock s),
             trace := trace s @ [(w, port, ev)],
             threads := (threads s)[w := after_body port evs fin]\<rparr>)"
| "thread_step g e w Finished s = s"
| "thread_step g e w Crashed s = s"

definition step :: "globals \<Rightarrow> network \<Rightarrow> nat \<Rightarrow> system \<Rightarrow> system" where
  "step g e w s = (if w < length (threads s) then thread_step g e w (threads s ! w) s else s)"

fun run :: "globals \<Rightarrow> network \<Rightarrow> nat list \<Rightarrow> system \<Rightarrow> system" where
  "run g e [] s = s"
| "run g e (w # ws) s = run g e ws (step g e w s)"

text \<open>The scan is complete when every thread has returned: \<^verbatim>\<open>main\<close> is past the joins.\<close>

definition all_finished :: "system \<Rightarrow> bool" where
  "all_finished s \<longleftrightarrow> list_all (\<lambda>t. t = Finished) (threads s)"

text \<open>What the trace shows: the ports reported in the file, the ports reported on the
  console, and the values returned by \<^verbatim>\<open>get_next_port\<close>, each in the order of the calls.\<close>

definition reported :: "(nat \<times> int \<times> event) list \<Rightarrow> int list" where
  "reported tr = map (\<lambda>(w, port, ev). port) (filter (\<lambda>(w, port, ev). is_fprintf ev) tr)"

definition displayed :: "(nat \<times> int \<times> event) list \<Rightarrow> int list" where
  "displayed tr = map (\<lambda>(w, port, ev). port) (filter (\<lambda>(w, port, ev). is_printf ev) tr)"

definition dispensed :: "(nat \<times> int \<times> event) list \<Rightarrow> (nat \<times> int) list" where
  "dispensed tr =
     map (\<lambda>(w, port, ev). (w, port)) (filter (\<lambda>(w, port, ev). is_get_next_port ev) tr)"

subsection \<open>Invariants of the threads\<close>

text \<open>
  The definitions of this part are not code of the program: they state what holds in
  every state the threads can reach, and name the parts of the trace the claims about
  the two outputs speak of.

  The calls on the two outputs and their mutex: \<^verbatim>\<open>pthread_mutex_lock(&print_lock)\<close>,
  \<^verbatim>\<open>printf\<close>, \<^verbatim>\<open>fprintf\<close>, \<^verbatim>\<open>fflush\<close>, \<^verbatim>\<open>pthread_mutex_unlock(&print_lock)\<close>.
\<close>

fun is_sink :: "event \<Rightarrow> bool" where
  "is_sink E_lock = True"
| "is_sink (E_printf l) = True"
| "is_sink (E_fprintf l) = True"
| "is_sink E_fflush = True"
| "is_sink E_unlock = True"
| "is_sink ev = False"

text \<open>A thread is between lock and unlock of \<^verbatim>\<open>print_lock\<close> when the next call on the
  outputs that it still has to make is not the lock.\<close>

definition inside :: "event list \<Rightarrow> bool" where
  "inside evs = (case filter is_sink evs of [] \<Rightarrow> False | ev # rest \<Rightarrow> ev \<noteq> E_lock)"

fun in_queue_section :: "thread \<Rightarrow> bool" where
  "in_queue_section In_queue = True"
| "in_queue_section (Taking i port) = True"
| "in_queue_section (Leaving port) = True"
| "in_queue_section t = False"

fun in_print_section :: "thread \<Rightarrow> bool" where
  "in_print_section (In_body port evs fin) = inside evs"
| "in_print_section t = False"

text \<open>
  A port is reported when a socket could be made for it and \<^verbatim>\<open>connect\<close> returned 0.
\<close>

definition opens :: "network \<Rightarrow> int \<Rightarrow> bool" where
  "opens e port \<longleftrightarrow> socket_result e port \<noteq> None \<and> connect_result e (htons port) = 0"

text \<open>The port a thread has taken from the queue and will still report, if any.\<close>

fun pending :: "network \<Rightarrow> thread \<Rightarrow> int multiset" where
  "pending e (Leaving port) = (if port \<noteq> - 1 \<and> opens e port then {#port#} else {#})"
| "pending e (In_body port evs fin) = (if filter is_fprintf evs \<noteq> [] then {#port#} else {#})"
| "pending e t = {#}"

text \<open>The conditions on the place of one thread \<open>w\<close> in a state.\<close>

fun thread_ok :: "globals \<Rightarrow> network \<Rightarrow> system \<Rightarrow> nat \<Rightarrow> thread \<Rightarrow> bool" where
  "thread_ok g e s w (Taking i port) =
     (i = index (queue s) \<and> i < size_q (queue s) \<and> port = ports (queue s) ! nat i)"
| "thread_ok g e s w (Leaving port) =
     (if port = - 1 then size_q (queue s) \<le> index (queue s)
      else port \<in> set (ports (queue s)))"
| "thread_ok g e s w (In_body port evs fin) =
     (evs \<noteq> [] \<and> port \<noteq> - 1 \<and> port \<in> set (ports (queue s))
      \<and> suffix evs (fst (worker_body g e (int w) port))
      \<and> fin = snd (worker_body g e (int w) port))"
| "thread_ok g e s w Finished =
     ((\<exists>port \<in> set (ports (queue s)). socket_result e port = None)
      \<or> size_q (queue s) \<le> index (queue s))"
| "thread_ok g e s w Crashed = False"
| "thread_ok g e s w t = True"

text \<open>The calls on the outputs in a trace, the pairs of thread and port that have locked
  \<^verbatim>\<open>print_lock\<close>, and the calls on the outputs that one such pair makes.\<close>

definition sink_trace :: "(nat \<times> int \<times> event) list \<Rightarrow> (nat \<times> int \<times> event) list" where
  "sink_trace tr = filter (\<lambda>(w, port, ev). is_sink ev) tr"

definition started :: "(nat \<times> int \<times> event) list \<Rightarrow> (nat \<times> int) list" where
  "started tr = map (\<lambda>(w, port, ev). (w, port)) (filter (\<lambda>(w, port, ev). ev = E_lock) tr)"

definition record_block :: "globals \<Rightarrow> network \<Rightarrow> nat \<times> int \<Rightarrow> (nat \<times> int \<times> event) list" where
  "record_block g e wp =
     (case wp of (w, port) \<Rightarrow>
        map (\<lambda>ev. (w, port, ev)) (filter is_sink (fst (worker_body g e (int w) port))))"

text \<open>
  The invariant. The queue is well-formed and its array is \<open>ps\<close>; a thread is
  between lock and unlock of \<^verbatim>\<open>q->lock\<close> exactly when it holds this mutex, and the same
  for \<^verbatim>\<open>print_lock\<close>; every thread is at a place that fits the queue and the body of
  its port (a thread has returned only after it found the queue exhausted, unless some
  port of \<open>ps\<close> gets no socket); the ports reported, those still to be reported by the
  threads and those still in the queue are together the ports of \<open>ps\<close> that open; the
  calls on the outputs in the trace are the blocks of the pairs that locked
  \<^verbatim>\<open>print_lock\<close>, in the order of the locks, the last block lacking the calls its thread
  has still to make; and the ports returned by \<^verbatim>\<open>get_next_port\<close>, in the order of the
  returns and with the one taken and not yet returned, are the ports of \<open>ps\<close> before the
  cursor.
\<close>

definition locks_ok :: "system \<Rightarrow> bool" where
  "locks_ok s \<longleftrightarrow>
     list_all (\<lambda>w. in_queue_section (threads s ! w) = (queue_lock s = Some w)
                  \<and> in_print_section (threads s ! w) = (print_lock s = Some w))
       [0..<length (threads s)]
     \<and> (case queue_lock s of None \<Rightarrow> True | Some w \<Rightarrow> w < length (threads s))
     \<and> (case print_lock s of None \<Rightarrow> True | Some w \<Rightarrow> w < length (threads s))"

definition threads_ok :: "globals \<Rightarrow> network \<Rightarrow> system \<Rightarrow> bool" where
  "threads_ok g e s \<longleftrightarrow>
     list_all (\<lambda>w. thread_ok g e s w (threads s ! w)) [0..<length (threads s)]"

definition ports_conserved :: "network \<Rightarrow> system \<Rightarrow> bool" where
  "ports_conserved e s \<longleftrightarrow>
     mset (reported (trace s)) + sum_list (map (pending e) (threads s))
       + mset (filter (opens e) (drop (nat (index (queue s))) (ports (queue s))))
     = mset (filter (opens e) (ports (queue s)))"

text \<open>The calls on the outputs that a thread has still to make in the body.\<close>

definition rest_of_thread :: "nat \<Rightarrow> thread \<Rightarrow> (nat \<times> int \<times> event) list" where
  "rest_of_thread w t =
     (case t of In_body port evs fin \<Rightarrow> map (\<lambda>ev. (w, port, ev)) (filter is_sink evs) | _ \<Rightarrow> [])"

definition rest_of_block :: "system \<Rightarrow> (nat \<times> int \<times> event) list" where
  "rest_of_block s =
     (case print_lock s of
        None \<Rightarrow> []
      | Some w \<Rightarrow>
          (case threads s ! w of
             In_body port evs fin \<Rightarrow> map (\<lambda>ev. (w, port, ev)) (filter is_sink evs)
           | t \<Rightarrow> []))"

definition sink_ok :: "globals \<Rightarrow> network \<Rightarrow> system \<Rightarrow> bool" where
  "sink_ok g e s \<longleftrightarrow>
     sink_trace (trace s) @ rest_of_block s
       = concat (map (record_block g e) (started (trace s)))"

text \<open>The port that the holder of \<^verbatim>\<open>q->lock\<close> has taken and not yet returned.\<close>

definition taken_in_flight :: "system \<Rightarrow> int list" where
  "taken_in_flight s =
     (case queue_lock s of
        None \<Rightarrow> []
      | Some w \<Rightarrow>
          (case threads s ! w of
             Leaving port \<Rightarrow> (if port = - 1 then [] else [port])
           | t \<Rightarrow> []))"

definition dispense_ok :: "system \<Rightarrow> bool" where
  "dispense_ok s \<longleftrightarrow>
     filter (\<lambda>port. port \<noteq> - 1) (map snd (dispensed (trace s))) @ taken_in_flight s
       = take (nat (index (queue s))) (ports (queue s))"

text \<open>Only a thread whose port opens locks \<^verbatim>\<open>print_lock\<close>.\<close>

definition started_open :: "network \<Rightarrow> system \<Rightarrow> bool" where
  "started_open e s \<longleftrightarrow> list_all (\<lambda>wp. opens e (snd wp)) (started (trace s))"

definition invariant :: "globals \<Rightarrow> network \<Rightarrow> int list \<Rightarrow> system \<Rightarrow> bool" where
  "invariant g e ps s \<longleftrightarrow>
     queue_ok (queue s) \<and> ports (queue s) = ps \<and> - 1 \<notin> set ps
     \<and> locks_ok s \<and> threads_ok g e s \<and> ports_conserved e s \<and> sink_ok g e s
     \<and> dispense_ok s \<and> started_open e s"

subsection \<open>Threads that have met a failure of \<^verbatim>\<open>socket\<close>\<close>

text \<open>
  Not code of the program: what the trace tells about the failures of \<^verbatim>\<open>socket\<close>, and what
  holds of them in every state the threads can reach. A thread has met a failure when
  the trace holds a call of \<^verbatim>\<open>socket\<close> by this thread that returned \<^verbatim>\<open>INVALID_SOCKET\<close>.
\<close>

definition met_failure :: "(nat \<times> int \<times> event) list \<Rightarrow> nat \<Rightarrow> bool" where
  "met_failure tr w \<longleftrightarrow> list_ex (\<lambda>(v, port, ev). v = w \<and> ev = E_socket None) tr"

text \<open>The failures in a trace, each with its thread and its port.\<close>

definition failures :: "(nat \<times> int \<times> event) list \<Rightarrow> (nat \<times> int) list" where
  "failures tr =
     map (\<lambda>(w, port, ev). (w, port)) (filter (\<lambda>(w, port, ev). ev = E_socket None) tr)"

text \<open>
  A thread that has met a failure has returned, and a thread that has returned has met
  a failure or found the queue exhausted.
\<close>

definition returns_ok :: "system \<Rightarrow> bool" where
  "returns_ok s \<longleftrightarrow>
     list_all (\<lambda>w. (met_failure (trace s) w \<longrightarrow> threads s ! w = Finished)
                 \<and> (threads s ! w = Finished \<longrightarrow>
                      met_failure (trace s) w \<or> size_q (queue s) \<le> index (queue s)))
       [0..<length (threads s)]"

text \<open>
  A thread in the body of the loop handles a port that \<^verbatim>\<open>get_next_port\<close> returned to it;
  every failure is at a port without socket that was returned to the thread, and no
  thread has two failures.
\<close>

fun taken_by :: "(nat \<times> int \<times> event) list \<Rightarrow> nat \<Rightarrow> thread \<Rightarrow> bool" where
  "taken_by tr w (In_body port evs fin) = ((w, port) \<in> set (dispensed tr))"
| "taken_by tr w t = True"

definition failures_ok :: "network \<Rightarrow> system \<Rightarrow> bool" where
  "failures_ok e s \<longleftrightarrow>
     list_all (\<lambda>wp. socket_result e (snd wp) = None \<and> snd wp \<noteq> - 1
                   \<and> wp \<in> set (dispensed (trace s)))
       (failures (trace s))
     \<and> distinct (map fst (failures (trace s)))
     \<and> list_all (\<lambda>w. taken_by (trace s) w (threads s ! w)) [0..<length (threads s)]"

subsection \<open>The records of the outputs, as a specification\<close>

text \<open>
  These definitions are not taken from the program: they state what the calls on the
  outputs for one open port are, so that the trace can be compared with them. The value
  and the buffer that \<^verbatim>\<open>read_banner\<close> yields for a port do not depend on the socket, which
  is given as 0 here. For the thread \<open>w\<close> and the port it reports, the calls are: lock,
  \<^verbatim>\<open>printf\<close> of the console line, \<^verbatim>\<open>fprintf\<close> of the file line, \<^verbatim>\<open>fflush\<close>, unlock.
\<close>

definition banner_read :: "globals \<Rightarrow> network \<Rightarrow> int \<Rightarrow> int \<times> byte list" where
  "banner_read g e port = snd (read_banner g e 0 port)"

definition record_calls :: "globals \<Rightarrow> network \<Rightarrow> nat \<times> int \<Rightarrow> (nat \<times> int \<times> event) list" where
  "record_calls g e wp =
     (case wp of (w, port) \<Rightarrow>
        [(w, port, E_lock),
         (w, port, E_printf (console_line (int w) port (fst (banner_read g e port))
                               (snd (banner_read g e port)))),
         (w, port, E_fprintf (file_line (int w) port (fst (banner_read g e port))
                                (snd (banner_read g e port)))),
         (w, port, E_fflush),
         (w, port, E_unlock)])"

text \<open>The lines of the file, in the order in which they were written.\<close>

fun line_of :: "event \<Rightarrow> string" where
  "line_of (E_fprintf l) = l"
| "line_of (E_printf l) = l"
| "line_of ev = []"

definition log_file :: "(nat \<times> int \<times> event) list \<Rightarrow> string list" where
  "log_file tr = map (\<lambda>(w, port, ev). line_of ev) (filter (\<lambda>(w, port, ev). is_fprintf ev) tr)"

subsection \<open>A measure of the work left\<close>

text \<open>
  Not code of the program: a bound on the number of moves the threads can still make,
  used to show that every scan comes to its end. \<open>can_move\<close> tells whether a thread at a
  place is free to move (it is not free while it waits for a mutex, nor after it has
  returned).
\<close>

fun rank :: "thread \<Rightarrow> nat" where
  "rank At_top = 3"
| "rank In_queue = 2"
| "rank (Taking i port) = 1"
| "rank (Leaving port) = (if port = - 1 then 1 else 17)"
| "rank (In_body port evs fin) = length evs + (case fin of Returned \<Rightarrow> 0 | Looped out \<Rightarrow> 4)"
| "rank Finished = 0"
| "rank Crashed = 0"

definition work_left :: "system \<Rightarrow> nat" where
  "work_left s =
     20 * nat (size_q (queue s) - index (queue s)) + sum_list (map rank (threads s))"

fun can_move :: "system \<Rightarrow> thread \<Rightarrow> bool" where
  "can_move s At_top = (queue_lock s = None)"
| "can_move s (In_body port (ev # evs) fin) = (ev \<noteq> E_lock \<or> print_lock s = None)"
| "can_move s Finished = False"
| "can_move s Crashed = False"
| "can_move s t = True"

section \<open>The job queue: proofs\<close>

lemma fill_ports_eq:
  "0 \<le> i \<Longrightarrow> i \<le> sz \<Longrightarrow> length ps = nat sz \<Longrightarrow>
   fill_ports start sz i ps = take (nat i) ps @ map (\<lambda>k. start + k) [i..sz - 1]"
proof (induction start sz i ps rule: fill_ports.induct)
  case (1 start sz i ps)
  show ?case
  proof (cases "i < sz")
    case True
    have up: "[i..sz - 1] = i # [i + 1..sz - 1]"
      using True by (simp add: upto_rec1)
    have "fill_ports start sz i ps = fill_ports start sz (i + 1) (ps[nat i := start + i])"
      using True by simp
    also have "\<dots> = take (nat (i + 1)) (ps[nat i := start + i])
                     @ map (\<lambda>k. start + k) [i + 1..sz - 1]"
      using "1.IH"[OF True] "1.prems" True by simp
    also have "take (nat (i + 1)) (ps[nat i := start + i]) = take (nat i) ps @ [start + i]"
      using "1.prems" True
      by (simp add: nat_add_distrib take_Suc_conv_app_nth)
    finally show ?thesis using up by simp
  next
    case False
    with "1.prems" have "i = sz" by simp
    then show ?thesis using "1.prems" by simp
  qed
qed

lemma map_add_upto: "map (\<lambda>k. start + k) [i..j] = [start + i..start + j]"
proof (induction i j rule: upto.induct)
  case (1 i j)
  show ?case
  proof (cases "i \<le> j")
    case True
    then show ?thesis
      using "1.IH" by (simp add: upto_rec1 [of i j] upto_rec1 [of "start + i" "start + j"] add.assoc)
  next
    case False
    then show ?thesis by simp
  qed
qed

lemma ports_init_queue:
  assumes "start \<le> end"
  shows "ports (init_queue garbage start end) = [start..end]"
proof -
  have "fill_ports start (end - start + 1) 0 (map garbage [0..<nat (end - start + 1)])
        = map (\<lambda>k. start + k) [0..end - start]"
    using assms by (subst fill_ports_eq) simp_all
  then show ?thesis
    by (simp add: init_queue_def Let_def map_add_upto)
qed

lemma size_init_queue: "size_q (init_queue garbage start end) = end - start + 1"
  by (simp add: init_queue_def Let_def)

lemma index_init_queue: "index (init_queue garbage start end) = 0"
  by (simp add: init_queue_def Let_def)

lemma queue_ok_init:
  assumes "start \<le> end"
  shows "queue_ok (init_queue garbage start end)"
  using assms
  by (simp add: queue_ok_def ports_init_queue size_init_queue index_init_queue)

lemma get_next_port_ok:
  assumes "queue_ok q"
  shows "\<exists>p q'. get_next_port q = Inr (p, q') \<and> queue_ok q'
           \<and> ports q' = ports q \<and> size_q q' = size_q q"
  using assms by (auto simp: get_next_port_def queue_ok_def)

lemma serve_exhausted:
  assumes "size_q q \<le> index q"
  shows "serve cs q = Inr (map (\<lambda>c. (c, - 1)) cs, q)"
  using assms by (induction cs) (simp_all add: get_next_port_def)

lemma serve_append:
  "serve (cs @ ds) q =
     (case serve cs q of
        Inl f \<Rightarrow> Inl f
      | Inr (rs, q') \<Rightarrow>
          (case serve ds q' of
             Inl f \<Rightarrow> Inl f
           | Inr (rs', q'') \<Rightarrow> Inr (rs @ rs', q'')))"
  by (induction cs arbitrary: q) (auto split: sum.splits)

text \<open>While ports remain, the calls return them in the order of the array.\<close>

lemma serve_available:
  assumes "queue_ok q" and "index q + int (length cs) \<le> size_q q"
  shows "serve cs q =
           Inr (zip cs (take (length cs) (drop (nat (index q)) (ports q))),
                q\<lparr>index := index q + int (length cs)\<rparr>)"
  using assms
proof (induction cs arbitrary: q)
  case Nil
  then show ?case by simp
next
  case (Cons c cs)
  let ?q' = "q\<lparr>index := index q + 1\<rparr>"
  have inb: "0 \<le> index q" "nat (index q) < length (ports q)" "index q < size_q q"
    using Cons.prems by (auto simp: queue_ok_def)
  have step: "get_next_port q = Inr (ports q ! nat (index q), ?q')"
    using inb by (simp add: get_next_port_def)
  have ok': "queue_ok ?q'" "index ?q' + int (length cs) \<le> size_q ?q'"
    using Cons.prems by (auto simp: queue_ok_def)
  have dr: "drop (nat (index q)) (ports q)
            = ports q ! nat (index q) # drop (nat (index q + 1)) (ports q)"
    using inb by (simp add: nat_add_distrib Cons_nth_drop_Suc)
  have "serve cs ?q' =
          Inr (zip cs (take (length cs) (drop (nat (index q + 1)) (ports q))),
               q\<lparr>index := index q + 1 + int (length cs)\<rparr>)"
    using Cons.IH [OF ok'] by simp
  then show ?case
    using step dr by (simp add: add.assoc)
qed

text \<open>
  The general fact about a run of calls on a well-formed queue: the results are the
  ports from the cursor on, then \<open>-1\<close> for every further call.
\<close>

lemma zip_take_length: "zip cs (take (length cs) ys) = zip cs ys"
proof (induction cs arbitrary: ys)
  case Nil
  then show ?case by simp
next
  case (Cons c cs)
  then show ?case by (cases ys) simp_all
qed

lemma filter_eq_distinct:
  assumes "distinct xs" and "x \<in> set xs"
  shows "length (filter (\<lambda>y. y = x) xs) = 1"
  using assms
proof (induction xs)
  case Nil
  then show ?case by simp
next
  case (Cons a xs)
  show ?case
  proof (cases "a = x")
    case True
    then have "filter (\<lambda>y. y = x) xs = []"
      using Cons.prems by (auto simp: filter_empty_conv)
    then show ?thesis using True by simp
  next
    case False
    then show ?thesis using Cons by auto
  qed
qed

lemma zip_replicate_map: "zip cs (replicate (length cs) x) = map (\<lambda>c. (c, x)) cs"
  by (induction cs) simp_all

lemma serve_all:
  assumes "queue_ok q"
  shows "serve cs q =
           Inr (zip cs (drop (nat (index q)) (ports q) @ replicate (length cs) (- 1)),
                q\<lparr>index := min (size_q q) (index q + int (length cs))\<rparr>)"
proof (cases "index q + int (length cs) \<le> size_q q")
  case True
  have len: "length cs \<le> length (drop (nat (index q)) (ports q))"
    using True assms by (auto simp: queue_ok_def)
  have "zip cs (drop (nat (index q)) (ports q) @ replicate (length cs) (- 1))
        = zip cs (take (length cs) (drop (nat (index q)) (ports q)))"
    using len by (simp add: zip_append2 zip_take_length)
  then show ?thesis
    using serve_available [OF assms True] True by (simp add: min_def)
next
  case False
  define k where "k = nat (size_q q - index q)"
  define q1 where "q1 = q\<lparr>index := size_q q\<rparr>"
  have k: "k < length cs" "int k = size_q q - index q"
    "length (drop (nat (index q)) (ports q)) = k"
    using False assms by (auto simp: k_def queue_ok_def)
  have first: "serve (take k cs) q = Inr (zip (take k cs) (drop (nat (index q)) (ports q)), q1)"
    using serve_available [OF assms, of "take k cs"] k by (simp add: q1_def min_def)
  have rest: "serve (drop k cs) q1 = Inr (map (\<lambda>c. (c, - 1)) (drop k cs), q1)"
    by (rule serve_exhausted) (simp add: q1_def)
  have "serve (take k cs @ drop k cs) q
        = Inr (zip (take k cs) (drop (nat (index q)) (ports q))
               @ map (\<lambda>c. (c, - 1)) (drop k cs), q1)"
    unfolding serve_append using first rest by simp
  moreover have "zip cs (drop (nat (index q)) (ports q) @ replicate (length cs) (- 1))
        = zip (take k cs) (drop (nat (index q)) (ports q))
          @ zip (drop k cs) (replicate (length cs) (- 1 :: int))"
    using k by (simp add: zip_append2)
  moreover have "zip (drop k cs) (replicate (length cs) (- 1 :: int))
        = map (\<lambda>c. (c, - 1)) (drop k cs)"
  proof -
    have "replicate (length cs) (- 1 :: int)
          = replicate (length (drop k cs)) (- 1) @ replicate k (- 1)"
      using k by (simp add: replicate_add [symmetric])
    then show ?thesis
      using zip_replicate_map [of "drop k cs" "- 1 :: int"]
      by (simp add: zip_append2)
  qed
  moreover have "q1 = q\<lparr>index := min (size_q q) (index q + int (length cs))\<rparr>"
    using False by (simp add: q1_def min_def)
  ultimately show ?thesis by simp
qed

section \<open>The worker: proofs\<close>

lemma recv_None: "recv None buf len = (- 1, buf)"
  by (simp add: recv_def)

lemma recv_Some:
  "recv (Some data) buf len
     = (int (min (length data) len), take len data @ drop (min (length data) len) buf)"
  by (simp add: recv_def)

lemma recv_facts:
  assumes "recv incoming buf len = (n, b)" and "len \<le> length buf"
  shows "n \<le> int len" and "length b = length buf"
    and "n \<le> 0 \<Longrightarrow> b = buf"
    and "0 < n \<Longrightarrow> \<exists>data. incoming = Some data \<and> take (nat n) b = take (nat n) data
                        \<and> nat n = min (length data) len"
proof -
  show "n \<le> int len"
    using assms by (cases incoming) (auto simp: recv_None recv_Some)
  show "length b = length buf"
  proof (cases incoming)
    case None
    then show ?thesis using assms by (simp add: recv_None)
  next
    case (Some data)
    then have b: "b = take len data @ drop (min (length data) len) buf"
      using assms by (auto simp: recv_Some)
    show ?thesis
      unfolding b using assms(2) by (simp add: min_def)
  qed
  show "b = buf" if "n \<le> 0"
  proof (cases incoming)
    case None
    then show ?thesis using assms by (simp add: recv_None)
  next
    case (Some data)
    then have n: "n = int (min (length data) len)"
      and b: "b = take len data @ drop (min (length data) len) buf"
      using assms by (auto simp: recv_Some)
    have "min (length data) len = 0"
      using that n by simp
    then have "take len data = []"
      by (cases data) (auto simp: min_def split: if_splits)
    then show ?thesis
      using b \<open>min (length data) len = 0\<close> by simp
  qed
  show "\<exists>data. incoming = Some data \<and> take (nat n) b = take (nat n) data
                        \<and> nat n = min (length data) len" if "0 < n"
  proof (cases incoming)
    case None
    then show ?thesis using assms that by (simp add: recv_None)
  next
    case (Some data)
    then have n: "nat n = min (length data) len" and b: "b = take len data @ drop (min (length data) len) buf"
      using assms by (auto simp: recv_Some)
    have "take (nat n) b = take (nat n) data"
      unfolding b n by (simp add: min_def)
    then show ?thesis using Some n by simp
  qed
qed

lemma read_banner_full:
  assumes "FULL_MODE g \<noteq> 0"
  shows "read_banner g e s port =
           ([E_recv s 511 (fst (recv (recv_data e (htons port)) (map (stack e) [0..<512]) 511))],
            recv (recv_data e (htons port)) (map (stack e) [0..<512]) 511)"
  using assms by (simp add: read_banner_def Let_def split: prod.splits)

lemma read_banner_fast:
  assumes "FULL_MODE g = 0"
  shows "read_banner g e s port = ([], 0, map (stack e) [0..<512])"
  using assms by (simp add: read_banner_def Let_def)

lemma worker_body_no_socket:
  assumes "socket_result e port = None"
  shows "worker_body g e thread_id port = ([E_socket None], Returned)"
  using assms by (simp add: worker_body_def)

lemma worker_body_closed:
  assumes "socket_result e port = Some s" and "connect_result e (htons port) \<noteq> 0"
  shows "worker_body g e thread_id port =
           ([E_socket (Some s),
             E_setsockopt s SO_RCVTIMEO (TIMEOUT_MS g),
             E_setsockopt s SO_SNDTIMEO (TIMEOUT_MS g),
             E_connect s (htons port) (connect_result e (htons port)),
             E_closesocket s], Looped Closed)"
  using assms by (simp add: worker_body_def Let_def)

lemma worker_body_open:
  assumes "socket_result e port = Some s" and "connect_result e (htons port) = 0"
    and "read_banner g e s port = (reading, n, banner)"
  shows "worker_body g e thread_id port =
           ([E_socket (Some s),
             E_setsockopt s SO_RCVTIMEO (TIMEOUT_MS g),
             E_setsockopt s SO_SNDTIMEO (TIMEOUT_MS g),
             E_connect s (htons port) 0] @ reading @
            [E_lock,
             E_printf (console_line thread_id port n banner),
             E_fprintf (file_line thread_id port n banner),
             E_fflush,
             E_unlock,
             E_closesocket s],
            Looped (if n > 0 then OpenWithBanner (take (nat n) banner) else OpenNoData))"
  using assms by (simp add: worker_body_def Let_def report_def)


lemma takeWhile_stop:
  assumes "\<not> P y"
  shows "takeWhile P (xs @ y # ys) = takeWhile P xs"
  using assms by (induction xs) simp_all

lemma fmt_s_terminated:
  assumes "k < length buf"
  shows "fmt_s (buf[k := NUL]) = fmt_s (take k buf)"
proof -
  have "buf[k := NUL] = take k buf @ NUL # drop (Suc k) buf"
    using assms by (rule upd_conv_take_nth_drop)
  then show ?thesis
    by (simp add: fmt_s_def takeWhile_stop)
qed

lemma set_digits: "set (digits n) \<subseteq> set ''0123456789''"
proof (induction n rule: digits.induct)
  case (1 n)
  have d: "''0123456789'' ! k \<in> set ''0123456789''" if "k < 10" for k
    using that by (intro nth_mem) simp
  show ?case
  proof (cases "n < 10")
    case True
    then show ?thesis
      using d [of n] by (subst digits.simps) simp
  next
    case False
    have "n mod 10 < 10" by simp
    then show ?thesis
      using False "1.IH" d [of "n mod 10"] by (subst digits.simps) simp
  qed
qed

lemma colon_fmt_d: "CHR '':'' \<notin> set (fmt_d i)"
  using set_digits [of "nat i"] set_digits [of "nat (- i)"]
  by (auto simp: fmt_d_def)

lemma colon_service_name: "CHR '':'' \<notin> set (service_name port)"
  by (simp add: service_name_def)

lemma sublist_has_colon:
  assumes "sublist '' - banner: '' l"
  shows "CHR '':'' \<in> set l"
proof -
  have "set '' - banner: '' \<subseteq> set l"
    using assms by (rule set_mono_sublist)
  then show ?thesis by simp
qed
declare worker.simps [simp del]

lemma worker_body_returned_iff:
  "snd (worker_body g e thread_id port) = Returned \<longleftrightarrow> socket_result e port = None"
  by (auto simp: worker_body_def Let_def split: option.splits prod.splits)

lemma fst_worker_body_cases:
  "fst (worker_body g e thread_id port) =
     (case socket_result e port of
        None \<Rightarrow> [E_socket None]
      | Some s \<Rightarrow>
          [E_socket (Some s),
           E_setsockopt s SO_RCVTIMEO (TIMEOUT_MS g),
           E_setsockopt s SO_SNDTIMEO (TIMEOUT_MS g),
           E_connect s (htons port) (connect_result e (htons port))]
          @ (if connect_result e (htons port) = 0
             then fst (read_banner g e s port)
                  @ report thread_id port (fst (snd (read_banner g e s port)))
                      (snd (snd (read_banner g e s port)))
             else [])
          @ [E_closesocket s])"
  by (auto simp: worker_body_def Let_def split: option.splits prod.splits)

lemma fst_read_banner:
  "fst (read_banner g e s port) =
     (if FULL_MODE g \<noteq> 0
      then [E_recv s 511 (fst (recv (recv_data e (htons port)) (map (stack e) [0..<512]) 511))]
      else [])"
  by (simp add: read_banner_def Let_def split: prod.splits)

lemma socket_use_append:
  "socket_use h (xs @ ys) =
     (case socket_use h xs of None \<Rightarrow> None | Some h' \<Rightarrow> socket_use h' ys)"
  by (induction h xs rule: socket_use.induct) auto

lemma socket_use_body:
  "socket_use No_socket (fst (worker_body g e thread_id port)) = Some No_socket"
  by (simp add: fst_worker_body_cases fst_read_banner report_def split: option.splits)

lemma worker_socket_use:
  "worker g e thread_id q = Inr (evs, q') \<Longrightarrow> socket_use No_socket evs = Some No_socket"
proof (induction g e thread_id q arbitrary: evs q' rule: worker.induct)
  case (1 g e thread_id q)
  obtain port q1 where gnp: "get_next_port q = Inr (port, q1)"
    using "1.prems" by (subst (asm) worker.simps) (auto split: sum.splits)
  show ?case
  proof (cases "port = - 1")
    case True
    then show ?thesis
      using "1.prems" gnp by (subst (asm) worker.simps) auto
  next
    case False
    obtain bevs fin where wb: "worker_body g e thread_id port = (bevs, fin)"
      by (cases "worker_body g e thread_id port") auto
    have body: "socket_use No_socket bevs = Some No_socket"
      using socket_use_body [of g e thread_id port] wb by simp
    show ?thesis
    proof (cases fin)
      case Returned
      then have "evs = E_get_next_port port # bevs"
        using "1.prems" gnp False wb by (subst (asm) worker.simps) auto
      then show ?thesis using body by simp
    next
      case (Looped out)
      then obtain evs' where rest: "worker g e thread_id q1 = Inr (evs', q')"
        and evs: "evs = E_get_next_port port # bevs @ evs'"
        using "1.prems" gnp False wb
        by (subst (asm) worker.simps) (auto split: sum.splits)
      have "socket_use No_socket evs' = Some No_socket"
        using "1.IH" [OF gnp refl False wb [symmetric] Looped rest] .
      then show ?thesis
        using body evs by (simp add: socket_use_append)
    qed
  qed
qed


lemma worker_exhausted:
  assumes "size_q q \<le> index q"
  shows "worker g e thread_id q = Inr ([E_get_next_port (- 1)], q)"
  using assms by (subst worker.simps) (simp add: get_next_port_def)

lemma worker_step:
  assumes "queue_ok q" and "index q < size_q q"
    and "ports q ! nat (index q) \<noteq> - 1"
  shows "worker g e thread_id q =
           (case worker_body g e thread_id (ports q ! nat (index q)) of
              (evs, Returned) \<Rightarrow>
                Inr (E_get_next_port (ports q ! nat (index q)) # evs, q\<lparr>index := index q + 1\<rparr>)
            | (evs, Looped out) \<Rightarrow>
                (case worker g e thread_id (q\<lparr>index := index q + 1\<rparr>) of
                   Inl f \<Rightarrow> Inl f
                 | Inr (evs', q'') \<Rightarrow>
                     Inr (E_get_next_port (ports q ! nat (index q)) # evs @ evs', q'')))"
proof -
  have "get_next_port q = Inr (ports q ! nat (index q), q\<lparr>index := index q + 1\<rparr>)"
    using assms(1,2) by (auto simp: get_next_port_def queue_ok_def)
  then show ?thesis
    using assms(3) by (subst worker.simps) simp
qed

text \<open>
  A worker running alone, when sockets are available, handles every remaining port in
  turn and ends when the queue is exhausted.
\<close>

lemma worker_complete:
  assumes "queue_ok q"
    and "- 1 \<notin> set (drop (nat (index q)) (ports q))"
    and "\<forall>p \<in> set (drop (nat (index q)) (ports q)). socket_result e p \<noteq> None"
  shows "worker g e thread_id q =
           Inr (concat (map (\<lambda>p. E_get_next_port p # fst (worker_body g e thread_id p))
                          (drop (nat (index q)) (ports q)))
                @ [E_get_next_port (- 1)],
                q\<lparr>index := size_q q\<rparr>)"
  using assms
proof (induction "nat (size_q q - index q)" arbitrary: q)
  case 0
  then have "index q = size_q q" "drop (nat (index q)) (ports q) = []"
    by (auto simp: queue_ok_def)
  then show ?case
    using worker_exhausted [of q g e thread_id] by simp
next
  case (Suc k)
  let ?p = "ports q ! nat (index q)"
  let ?q' = "q\<lparr>index := index q + 1\<rparr>"
  have lt: "index q < size_q q" and inb: "nat (index q) < length (ports q)"
    using Suc.hyps(2) Suc.prems(1) by (auto simp: queue_ok_def)
  have dr: "drop (nat (index q)) (ports q) = ?p # drop (nat (index ?q')) (ports ?q')"
    using inb Suc.prems(1) by (simp add: queue_ok_def nat_add_distrib Cons_nth_drop_Suc)
  have p: "?p \<noteq> - 1" "socket_result e ?p \<noteq> None"
    using Suc.prems(2,3) dr by auto
  have ok': "queue_ok ?q'" "k = nat (size_q ?q' - index ?q')"
    using Suc.hyps(2) Suc.prems(1) lt by (auto simp: queue_ok_def)
  have rest: "worker g e thread_id ?q' =
           Inr (concat (map (\<lambda>p. E_get_next_port p # fst (worker_body g e thread_id p))
                          (drop (nat (index ?q')) (ports ?q')))
                @ [E_get_next_port (- 1)],
                ?q'\<lparr>index := size_q ?q'\<rparr>)"
    using Suc.prems(2,3) dr by (intro Suc.hyps(1) ok') auto
  obtain bevs fin where wb: "worker_body g e thread_id ?p = (bevs, fin)"
    by (cases "worker_body g e thread_id ?p") auto
  then obtain out where fin: "fin = Looped out"
    using p(2) worker_body_returned_iff [of g e thread_id ?p] by (cases fin) auto
  show ?case
    unfolding worker_step [OF Suc.prems(1) lt p(1)] wb fin
    using rest wb by (simp add: dr)
qed

lemma colon_free_lines:
  assumes "n \<le> 0"
  shows "CHR '':'' \<notin> set (file_line thread_id port n banner)"
    and "CHR '':'' \<notin> set (console_line thread_id port n banner)"
  using assms colon_fmt_d [of thread_id] colon_fmt_d [of port] colon_service_name [of port]
  by (simp_all add: file_line_def console_line_def Let_def COLOR_GREEN_def COLOR_RESET_def
        ESC_def NL_def)

lemma file_line_no_banner:
  assumes "n \<le> 0"
  shows "file_line thread_id port n banner =
           ''[Thread '' @ fmt_d thread_id @ ''] Port '' @ fmt_d port @ '' OPEN''
           @ (if service_name port = [] then [] else '' ('' @ service_name port @ '')'')
           @ [NL]"
  using assms by (simp add: file_line_def Let_def)

lemma read_banner_bounds:
  assumes "read_banner g e s port = (reading, n, banner)"
  shows "n < 512" and "length banner = 512"
proof -
  show "n < 512"
  proof (cases "FULL_MODE g = 0")
    case True
    then show ?thesis using assms read_banner_fast [OF True, of e s port] by simp
  next
    case False
    then have "recv (recv_data e (htons port)) (map (stack e) [0..<512]) 511 = (n, banner)"
      using assms read_banner_full [OF False, of e s port] by simp
    then show ?thesis using recv_facts(1) [of _ _ 511 n banner] by fastforce
  qed
  show "length banner = 512"
  proof (cases "FULL_MODE g = 0")
    case True
    then show ?thesis using assms read_banner_fast [OF True, of e s port] by auto
  next
    case False
    then have "recv (recv_data e (htons port)) (map (stack e) [0..<512]) 511 = (n, banner)"
      using assms read_banner_full [OF False, of e s port] by simp
    then show ?thesis using recv_facts(2) [of _ _ 511 n banner] by fastforce
  qed
qed

text \<open>The lines written to the file by one pass: one if the port is open, none otherwise.\<close>

lemma fprintf_of_body:
  "filter is_fprintf (fst (worker_body g e thread_id port)) =
     (case socket_result e port of
        None \<Rightarrow> []
      | Some s \<Rightarrow>
          if connect_result e (htons port) = 0
          then [E_fprintf (file_line thread_id port (fst (snd (read_banner g e s port)))
                             (snd (snd (read_banner g e s port))))]
          else [])"
  by (simp add: fst_worker_body_cases fst_read_banner report_def split: option.splits)

lemma printf_of_body:
  "filter is_printf (fst (worker_body g e thread_id port)) =
     (case socket_result e port of
        None \<Rightarrow> []
      | Some s \<Rightarrow>
          if connect_result e (htons port) = 0
          then [E_printf (console_line thread_id port (fst (snd (read_banner g e s port)))
                             (snd (snd (read_banner g e s port))))]
          else [])"
  by (simp add: fst_worker_body_cases fst_read_banner report_def split: option.splits)

lemma count_lines_of_run:
  assumes "\<forall>p \<in> set ps. socket_result e p \<noteq> None"
  shows "length (filter is_fprintf
            (concat (map (\<lambda>p. E_get_next_port p # fst (worker_body g e thread_id p)) ps)))
         = length (filter (\<lambda>p. connect_result e (htons p) = 0) ps)"
    and "length (filter is_printf
            (concat (map (\<lambda>p. E_get_next_port p # fst (worker_body g e thread_id p)) ps)))
         = length (filter (\<lambda>p. connect_result e (htons p) = 0) ps)"
  using assms
  by (induction ps) (auto simp: fprintf_of_body printf_of_body split: option.splits)

lemma upto_79_82: "[79..82] = [79, 80, 81, 82 :: int]"
  by (simp add: upto.simps)

lemma closesocket_of_body:
  "filter is_closesocket (fst (worker_body g e thread_id port)) =
     (case socket_result e port of None \<Rightarrow> [] | Some s \<Rightarrow> [E_closesocket s])"
  by (simp add: fst_worker_body_cases fst_read_banner report_def split: option.splits)

lemma ends_of_body:
  assumes "socket_result e port = Some s"
  shows "hd (fst (worker_body g e thread_id port)) = E_socket (Some s)"
    and "last (fst (worker_body g e thread_id port)) = E_closesocket s"
  using assms by (simp_all add: fst_worker_body_cases)

lemma file_line_banner:
  assumes "0 < n" and "nat n < length banner"
  shows "file_line thread_id port n banner
           = log_record_format thread_id port (Some (take (nat n) banner)) (service_name port)"
  using assms fmt_s_terminated [of "nat n" banner]
  by (simp add: file_line_def log_record_format_def Let_def fmt_s_def)

lemma file_line_plain:
  assumes "n \<le> 0"
  shows "file_line thread_id port n banner
           = log_record_format thread_id port None (service_name port)"
  using assms by (simp add: file_line_def log_record_format_def Let_def)

lemma read_banner_listener_80:
  "read_banner default_globals listener_80 80 80
     = ([E_recv 80 511 3], 3, ''hi'' @ [NL] @ drop 3 (map (stack listener_80) [0..<512]))"
  by (simp add: read_banner_def Let_def default_globals_def listener_80_def htons_def recv_Some
        numeral_3_eq_3)

lemma init_queue_eq:
  assumes "start \<le> end"
  shows "init_queue garbage start end
           = \<lparr>ports = [start..end], size_q = end - start + 1, index = 0\<rparr>"
  using ports_init_queue [OF assms, of garbage]
  by (simp add: size_init_queue index_init_queue)

section \<open>The threads: proofs\<close>

lemma suffix_filter_mono:
  assumes "suffix xs ys"
  shows "suffix (filter P xs) (filter P ys)"
proof -
  obtain zs where "ys = zs @ xs"
    using assms by (auto simp: suffix_def)
  then show ?thesis
    by (simp add: suffix_def)
qed

lemma sink_of_read_banner: "filter is_sink (fst (read_banner g e s port)) = []"
  by (simp add: fst_read_banner)

lemma sink_of_body:
  "filter is_sink (fst (worker_body g e thread_id port)) =
     (case socket_result e port of
        None \<Rightarrow> []
      | Some s \<Rightarrow>
          if connect_result e (htons port) = 0
          then report thread_id port (fst (snd (read_banner g e s port)))
                 (snd (snd (read_banner g e s port)))
          else [])"
  by (simp add: fst_worker_body_cases sink_of_read_banner report_def split: option.splits)

lemma body_not_empty: "fst (worker_body g e thread_id port) \<noteq> []"
  by (simp add: fst_worker_body_cases split: option.splits)

lemma suffix_report_cases:
  assumes "suffix (x # r) (report thread_id port n banner)"
  shows "(x = E_lock \<and> r = tl (report thread_id port n banner))
       \<or> (x = E_printf (console_line thread_id port n banner)
           \<and> r = [E_fprintf (file_line thread_id port n banner), E_fflush, E_unlock])
       \<or> (x = E_fprintf (file_line thread_id port n banner) \<and> r = [E_fflush, E_unlock])
       \<or> (x = E_fflush \<and> r = [E_unlock])
       \<or> (x = E_unlock \<and> r = [])"
  using assms by (auto simp: report_def suffix_Cons)

text \<open>What the rest of a body can be, seen through its calls on the outputs.\<close>

lemma sink_rest_cases:
  assumes "suffix evs (fst (worker_body g e thread_id port))"
  shows "filter is_sink evs = []
       \<or> (\<exists>n banner. filter is_sink (fst (worker_body g e thread_id port))
                         = report thread_id port n banner
            \<and> suffix (filter is_sink evs) (report thread_id port n banner)
            \<and> filter is_sink evs \<noteq> [])"
proof -
  have s: "suffix (filter is_sink evs) (filter is_sink (fst (worker_body g e thread_id port)))"
    using assms by (rule suffix_filter_mono)
  show ?thesis
  proof (cases "filter is_sink evs = []")
    case True
    then show ?thesis by simp
  next
    case False
    then have "filter is_sink (fst (worker_body g e thread_id port)) \<noteq> []"
      using s by auto
    then obtain n banner where
      "filter is_sink (fst (worker_body g e thread_id port)) = report thread_id port n banner"
      unfolding sink_of_body by (auto split: option.splits if_splits)
    then show ?thesis using s False by auto
  qed
qed

lemma body_step_lock:
  assumes "suffix (E_lock # evs) (fst (worker_body g e thread_id port))"
  shows "\<not> inside (E_lock # evs)" and "inside evs" and "evs \<noteq> []"
    and "E_lock # filter is_sink evs = filter is_sink (fst (worker_body g e thread_id port))"
proof -
  show "\<not> inside (E_lock # evs)" by (simp add: inside_def)
  obtain n banner where b: "filter is_sink (fst (worker_body g e thread_id port))
                         = report thread_id port n banner"
    and s: "suffix (E_lock # filter is_sink evs) (report thread_id port n banner)"
    using sink_rest_cases [OF assms] by auto
  have r: "filter is_sink evs = tl (report thread_id port n banner)"
    using suffix_report_cases [OF s] by auto
  then show "inside evs" "evs \<noteq> []"
    by (auto simp: inside_def report_def)
  show "E_lock # filter is_sink evs = filter is_sink (fst (worker_body g e thread_id port))"
    using r b by (simp add: report_def)
qed

lemma body_step_write:
  assumes "suffix (ev # evs) (fst (worker_body g e thread_id port))"
    and "is_printf ev \<or> is_fprintf ev \<or> ev = E_fflush"
  shows "inside (ev # evs)" and "inside evs" and "evs \<noteq> []"
    and "is_fprintf ev \<Longrightarrow> filter is_fprintf evs = []"
proof -
  have sk: "is_sink ev" and nl: "ev \<noteq> E_lock" "ev \<noteq> E_unlock"
    using assms(2) by (cases ev; simp)+
  show "inside (ev # evs)"
    using sk nl by (simp add: inside_def)
  obtain n banner where
    s: "suffix (ev # filter is_sink evs) (report thread_id port n banner)"
    using sink_rest_cases [OF assms(1)] sk by auto
  have r: "filter is_sink evs = [E_fprintf (file_line thread_id port n banner), E_fflush, E_unlock]
         \<or> filter is_sink evs = [E_fflush, E_unlock] \<and> is_fprintf ev
         \<or> filter is_sink evs = [E_unlock]"
    using suffix_report_cases [OF s] nl by auto
  then show "inside evs" "evs \<noteq> []"
    by (auto simp: inside_def)
  have ff: "filter is_fprintf evs = filter is_fprintf (filter is_sink evs)"
    by (induction evs) (auto elim: is_fprintf.elims)
  show "filter is_fprintf evs = []" if f: "is_fprintf ev"
  proof -
    have "filter is_sink evs = [E_fflush, E_unlock]"
      using suffix_report_cases [OF s] nl f by auto
    then show ?thesis
      by (subst ff) simp
  qed
qed

lemma body_step_unlock:
  assumes "suffix (E_unlock # evs) (fst (worker_body g e thread_id port))"
  shows "inside (E_unlock # evs)" and "\<not> inside evs" and "filter is_sink evs = []"
proof -
  show "inside (E_unlock # evs)" by (simp add: inside_def)
  obtain n banner where
    s: "suffix (E_unlock # filter is_sink evs) (report thread_id port n banner)"
    using sink_rest_cases [OF assms] by auto
  show "filter is_sink evs = []"
    using suffix_report_cases [OF s] by auto
  then show "\<not> inside evs" by (simp add: inside_def)
qed

lemma body_step_other:
  assumes "\<not> is_sink ev"
  shows "inside (ev # evs) = inside evs" and "filter is_sink (ev # evs) = filter is_sink evs"
    and "filter is_fprintf (ev # evs) = filter is_fprintf evs"
  using assms by (cases ev; simp add: inside_def)+

lemma fresh_body_outside: "\<not> inside (fst (worker_body g e thread_id port))"
  by (simp add: inside_def sink_of_body report_def split: option.splits)

lemma after_body_Cons [simp]: "evs \<noteq> [] \<Longrightarrow> after_body port evs fin = In_body port evs fin"
  by (cases evs) simp_all

lemma locks_okD:
  assumes "locks_ok s" and "w < length (threads s)"
  shows "in_queue_section (threads s ! w) = (queue_lock s = Some w)"
    and "in_print_section (threads s ! w) = (print_lock s = Some w)"
  using assms by (auto simp: locks_ok_def list_all_iff)

lemma locks_ok_owner:
  assumes "locks_ok s"
  shows "queue_lock s = Some v \<Longrightarrow> v < length (threads s)"
    and "print_lock s = Some v \<Longrightarrow> v < length (threads s)"
  using assms by (auto simp: locks_ok_def)

lemma locks_ok_update:
  assumes "locks_ok s" and "w < length (threads s)"
    and "threads s' = (threads s)[w := t']"
    and "in_queue_section t' = (queue_lock s' = Some w)"
    and "in_print_section t' = (print_lock s' = Some w)"
    and "\<And>v. v \<noteq> w \<Longrightarrow> (queue_lock s' = Some v) = (queue_lock s = Some v)"
    and "\<And>v. v \<noteq> w \<Longrightarrow> (print_lock s' = Some v) = (print_lock s = Some v)"
  shows "locks_ok s'"
proof -
  have each: "in_queue_section (threads s' ! v) = (queue_lock s' = Some v)
              \<and> in_print_section (threads s' ! v) = (print_lock s' = Some v)"
    if "v < length (threads s')" for v
  proof (cases "v = w")
    case True
    then show ?thesis using assms(2-5) by simp
  next
    case False
    then show ?thesis
      using that assms(3,6,7) locks_okD [OF assms(1), of v] by simp
  qed
  have q: "v < length (threads s')" if "queue_lock s' = Some v" for v
    using that assms(2,3) assms(6) [of v] locks_ok_owner(1) [OF assms(1), of v]
    by (cases "v = w") auto
  have p: "v < length (threads s')" if "print_lock s' = Some v" for v
    using that assms(2,3) assms(7) [of v] locks_ok_owner(2) [OF assms(1), of v]
    by (cases "v = w") auto
  show ?thesis
    unfolding locks_ok_def using each q p
    by (auto simp: list_all_iff split: option.splits)
qed

lemma threads_okD:
  assumes "threads_ok g e s" and "w < length (threads s)"
  shows "thread_ok g e s w (threads s ! w)"
  using assms by (auto simp: threads_ok_def list_all_iff)

lemma threads_ok_update:
  assumes "threads_ok g e s" and "w < length (threads s)"
    and "threads s' = (threads s)[w := t']"
    and "thread_ok g e s' w t'"
    and "\<And>v. v \<noteq> w \<Longrightarrow> v < length (threads s) \<Longrightarrow>
           thread_ok g e s v (threads s ! v) \<Longrightarrow> thread_ok g e s' v (threads s ! v)"
  shows "threads_ok g e s'"
proof -
  have "thread_ok g e s' v (threads s' ! v)" if "v < length (threads s')" for v
  proof (cases "v = w")
    case True
    then show ?thesis using assms(2-4) by simp
  next
    case False
    then show ?thesis
      using that assms(3,5) threads_okD [OF assms(1), of v] by simp
  qed
  then show ?thesis
    by (auto simp: threads_ok_def list_all_iff)
qed

lemma thread_ok_same_queue:
  assumes "thread_ok g e s v t" and "queue s' = queue s"
  shows "thread_ok g e s' v t"
  using assms by (cases t) simp_all

lemma sum_list_update_add:
  fixes f :: "'a \<Rightarrow> 'b multiset"
  assumes "w < length ts"
  shows "sum_list (map f (ts[w := t'])) + f (ts ! w) = sum_list (map f ts) + f t'"
  using assms
proof (induction ts arbitrary: w)
  case Nil
  then show ?case by simp
next
  case (Cons a ts)
  show ?case
  proof (cases w)
    case 0
    then show ?thesis by simp
  next
    case (Suc k)
    then show ?thesis
      using Cons.IH [of k] Cons.prems by (simp add: add.assoc)
  qed
qed

lemma thread_ok_outside_queue:
  assumes "thread_ok g e s v t" and "\<not> in_queue_section t"
    and "ports (queue s') = ports (queue s)" and "size_q (queue s') = size_q (queue s)"
    and "index (queue s) \<le> index (queue s')"
  shows "thread_ok g e s' v t"
  using assms by (cases t) auto

lemma in_print_section_after_body:
  "in_print_section (after_body port evs fin) = inside evs"
  by (cases evs; cases fin) (simp_all add: inside_def)

lemma in_queue_section_after_body: "\<not> in_queue_section (after_body port evs fin)"
  by (cases evs; cases fin) simp_all

lemma pending_after_body:
  "pending e (after_body port evs fin) = (if filter is_fprintf evs \<noteq> [] then {#port#} else {#})"
  by (cases evs; cases fin) simp_all

lemma thread_ok_after_body:
  assumes "suffix (ev # evs) (fst (worker_body g e (int w) port))"
    and "fin = snd (worker_body g e (int w) port)" and "port \<noteq> - 1"
    and "port \<in> set (ports (queue s))"
  shows "thread_ok g e s w (after_body port evs fin)"
proof (cases evs)
  case Nil
  show ?thesis
  proof (cases fin)
    case Returned
    then have "socket_result e port = None"
      using assms(2) worker_body_returned_iff [of g e "int w" port] by simp
    then show ?thesis
      using Nil Returned assms(4) by auto
  next
    case (Looped out)
    then show ?thesis using Nil by simp
  qed
next
  case (Cons a as)
  then show ?thesis
    using assms suffix_ConsD [OF assms(1)] by simp
qed

lemma rest_of_block_alt:
  "rest_of_block s =
     (case print_lock s of None \<Rightarrow> [] | Some w \<Rightarrow> rest_of_thread w (threads s ! w))"
  by (simp add: rest_of_block_def rest_of_thread_def split: option.splits thread.splits)

lemma rest_of_thread_after_body:
  "rest_of_thread w (after_body port evs fin) = map (\<lambda>ev. (w, port, ev)) (filter is_sink evs)"
  by (cases evs; cases fin) (simp_all add: rest_of_thread_def)

lemma rest_of_block_frame:
  assumes "print_lock s' = print_lock s" and "threads s' = (threads s)[w := t']"
    and "print_lock s \<noteq> Some w"
  shows "rest_of_block s' = rest_of_block s"
  using assms by (auto simp: rest_of_block_alt split: option.splits)

lemma sink_ok_frame:
  assumes "sink_ok g e s"
    and "sink_trace (trace s') = sink_trace (trace s)"
    and "started (trace s') = started (trace s)"
    and "rest_of_block s' = rest_of_block s"
  shows "sink_ok g e s'"
  using assms by (simp add: sink_ok_def)

lemma ports_conserved_update:
  assumes "ports_conserved e s" and "w < length (threads s)"
    and "threads s' = (threads s)[w := t']"
    and "ports (queue s') = ports (queue s)"
    and "mset (reported (trace s')) + pending e t'
           + mset (filter (opens e) (drop (nat (index (queue s'))) (ports (queue s))))
         = mset (reported (trace s)) + pending e (threads s ! w)
           + mset (filter (opens e) (drop (nat (index (queue s))) (ports (queue s))))"
  shows "ports_conserved e s'"
proof -
  let ?R = "mset (reported (trace s))" and ?R' = "mset (reported (trace s'))"
  let ?D = "mset (filter (opens e) (drop (nat (index (queue s))) (ports (queue s))))"
  let ?D' = "mset (filter (opens e) (drop (nat (index (queue s'))) (ports (queue s))))"
  let ?S = "sum_list (map (pending e) (threads s))"
  let ?S' = "sum_list (map (pending e) (threads s'))"
  let ?old = "pending e (threads s ! w)"
  have sum: "?S' + ?old = ?S + pending e t'"
    unfolding assms(3) by (rule sum_list_update_add [OF assms(2)])
  have "?R' + ?S' + ?D' + ?old = (?R' + pending e t' + ?D') + ?S"
    using sum by (simp add: ac_simps)
  also have "\<dots> = (?R + ?old + ?D) + ?S"
    using assms(5) by simp
  also have "\<dots> = (?R + ?S + ?D) + ?old"
    by (simp add: ac_simps)
  finally have "?R' + ?S' + ?D' = ?R + ?S + ?D"
    by simp
  then show ?thesis
    using assms(1,4) by (simp add: ports_conserved_def)
qed

lemma invariantD:
  assumes "invariant g e ps s"
  shows "queue_ok (queue s)" and "ports (queue s) = ps" and "- 1 \<notin> set ps"
    and "locks_ok s" and "threads_ok g e s" and "ports_conserved e s" and "sink_ok g e s"
    and "dispense_ok s" and "started_open e s"
  using assms by (simp_all add: invariant_def)

lemma started_open_frame:
  assumes "started_open e s" and "started (trace s') = started (trace s)"
  shows "started_open e s'"
  using assms by (simp add: started_open_def)

lemma dispensed_snoc:
  "dispensed (tr @ [(w, port, ev)])
     = dispensed tr @ (if is_get_next_port ev then [(w, port)] else [])"
  by (simp add: dispensed_def)

lemma taken_in_flight_frame:
  assumes "queue_lock s' = queue_lock s" and "threads s' = (threads s)[w := t']"
    and "queue_lock s \<noteq> Some w"
  shows "taken_in_flight s' = taken_in_flight s"
  using assms by (auto simp: taken_in_flight_def split: option.splits)

lemma dispense_ok_frame:
  assumes "dispense_ok s"
    and "dispensed (trace s') = dispensed (trace s)"
    and "taken_in_flight s' = taken_in_flight s"
    and "queue s' = queue s"
  shows "dispense_ok s'"
  using assms by (simp add: dispense_ok_def)

lemma inv_At_top:
  assumes inv: "invariant g e ps s" and w: "w < length (threads s)"
    and t: "threads s ! w = At_top"
  shows "invariant g e ps (thread_step g e w At_top s)"
proof (cases "queue_lock s = None")
  case False
  then show ?thesis using inv by auto
next
  case True
  let ?s' = "s\<lparr>queue_lock := Some w, threads := (threads s)[w := In_queue]\<rparr>"
  note i = invariantD [OF inv]
  have np: "print_lock s \<noteq> Some w"
    using locks_okD(2) [OF i(4) w] t by simp
  have l: "locks_ok ?s'"
    by (rule locks_ok_update [OF i(4) w, where t' = In_queue]) (use True np in auto)
  have th: "threads_ok g e ?s'"
  proof (rule threads_ok_update [OF i(5) w, where t' = In_queue])
    show "thread_ok g e ?s' v (threads s ! v)" if "thread_ok g e s v (threads s ! v)" for v
      using that by (rule thread_ok_same_queue) simp
  qed simp_all
  have c: "ports_conserved e ?s'"
    by (rule ports_conserved_update [OF i(6) w, where t' = In_queue]) (simp_all add: t)
  have k: "sink_ok g e ?s'"
    by (rule sink_ok_frame [OF i(7)])
       (simp_all add: rest_of_block_frame [where w = w and t' = In_queue] np)
  have d: "dispense_ok ?s'"
    using i(8) True w by (simp add: dispense_ok_def taken_in_flight_def)
  have so: "started_open e ?s'"
    by (rule started_open_frame [OF i(9)]) simp
  show ?thesis
    using i(1-3) l th c k d so True by (simp add: invariant_def)
qed

lemma inv_In_queue:
  assumes inv: "invariant g e ps s" and w: "w < length (threads s)"
    and t: "threads s ! w = In_queue"
  shows "invariant g e ps (thread_step g e w In_queue s)"
proof -
  note i = invariantD [OF inv]
  define t' where "t' = (if size_q (queue s) \<le> index (queue s) then Leaving (- 1)
      else Taking (index (queue s)) (ports (queue s) ! nat (index (queue s))))"
  let ?s' = "s\<lparr>threads := (threads s)[w := t']\<rparr>"
  have inb: "0 \<le> index (queue s) \<and> nat (index (queue s)) < length (ports (queue s))"
    if "\<not> size_q (queue s) \<le> index (queue s)"
    using that i(1) by (auto simp: queue_ok_def)
  have s': "thread_step g e w In_queue s = ?s'"
    using inb by (auto simp: t'_def)
  have ql: "queue_lock s = Some w" and np: "print_lock s \<noteq> Some w"
    using locks_okD [OF i(4) w] t by simp_all
  have l: "locks_ok ?s'"
    by (rule locks_ok_update [OF i(4) w, where t' = t']) (use ql np in \<open>auto simp: t'_def\<close>)
  have th: "threads_ok g e ?s'"
  proof (rule threads_ok_update [OF i(5) w, where t' = t'])
    show "thread_ok g e ?s' v (threads s ! v)" if "thread_ok g e s v (threads s ! v)" for v
      using that by (rule thread_ok_same_queue) simp
    show "thread_ok g e ?s' w t'"
      by (simp add: t'_def)
  qed simp_all
  have c: "ports_conserved e ?s'"
    by (rule ports_conserved_update [OF i(6) w, where t' = t']) (simp_all add: t t'_def)
  have k: "sink_ok g e ?s'"
    by (rule sink_ok_frame [OF i(7)])
       (simp_all add: rest_of_block_frame [where w = w and t' = t'] np)
  have d: "dispense_ok ?s'"
    using i(8) ql w t by (simp add: dispense_ok_def taken_in_flight_def t'_def)
  have so: "started_open e ?s'"
    by (rule started_open_frame [OF i(9)]) simp
  show ?thesis
    unfolding s' using i(1-3) l th c k d so by (simp add: invariant_def)
qed


lemma others_outside_queue:
  assumes "locks_ok s" and "queue_lock s = Some w" and "v \<noteq> w" and "v < length (threads s)"
  shows "\<not> in_queue_section (threads s ! v)"
  using locks_okD(1) [OF assms(1,4)] assms(2,3) by simp

lemma reported_snoc:
  "reported (tr @ [(w, port, ev)]) = reported tr @ (if is_fprintf ev then [port] else [])"
  by (simp add: reported_def)

lemma sink_trace_snoc:
  "sink_trace (tr @ [(w, port, ev)]) = sink_trace tr @ (if is_sink ev then [(w, port, ev)] else [])"
  by (simp add: sink_trace_def)

lemma started_snoc:
  "started (tr @ [(w, port, ev)]) = started tr @ (if ev = E_lock then [(w, port)] else [])"
  by (simp add: started_def)

lemma inv_Taking:
  assumes inv: "invariant g e ps s" and w: "w < length (threads s)"
    and t: "threads s ! w = Taking i port"
  shows "invariant g e ps (thread_step g e w (Taking i port) s)"
proof -
  note iv = invariantD [OF inv]
  let ?s' = "s\<lparr>queue := (queue s)\<lparr>index := i + 1\<rparr>, threads := (threads s)[w := Leaving port]\<rparr>"
  have tk: "i = index (queue s)" "i < size_q (queue s)" "port = ports (queue s) ! nat i"
    using threads_okD [OF iv(5) w] t by simp_all
  have inb: "0 \<le> i" "nat i < length (ports (queue s))"
    using tk(1,2) iv(1) by (auto simp: queue_ok_def)
  have pin: "port \<in> set (ports (queue s))"
    using inb(2) tk(3) by simp
  then have pn: "port \<noteq> - 1"
    using iv(2,3) by auto
  have ql: "queue_lock s = Some w" and np: "print_lock s \<noteq> Some w"
    using locks_okD [OF iv(4) w] t by simp_all
  have q: "queue_ok (queue ?s')"
    using iv(1) tk(1,2) by (simp add: queue_ok_def)
  have l: "locks_ok ?s'"
    by (rule locks_ok_update [OF iv(4) w, where t' = "Leaving port"]) (use ql np in auto)
  have th: "threads_ok g e ?s'"
  proof (rule threads_ok_update [OF iv(5) w, where t' = "Leaving port"])
    show "thread_ok g e ?s' v (threads s ! v)"
      if "v \<noteq> w" "v < length (threads s)" "thread_ok g e s v (threads s ! v)" for v
      using that(3) others_outside_queue [OF iv(4) ql that(1,2)]
      by (rule thread_ok_outside_queue) (simp_all add: tk(1))
    show "thread_ok g e ?s' w (Leaving port)"
      using pin pn by simp
  qed simp_all
  have dr: "drop (nat (index (queue s))) (ports (queue s))
            = port # drop (nat (i + 1)) (ports (queue s))"
    using inb tk by (simp add: nat_add_distrib Cons_nth_drop_Suc)
  have c: "ports_conserved e ?s'"
    by (rule ports_conserved_update [OF iv(6) w, where t' = "Leaving port"])
       (simp_all add: t dr pn)
  have k: "sink_ok g e ?s'"
    by (rule sink_ok_frame [OF iv(7)])
       (simp_all add: rest_of_block_frame [where w = w and t' = "Leaving port"] np)
  have "take (nat (i + 1)) (ports (queue s)) = take (nat i) (ports (queue s)) @ [port]"
    using inb tk(3) by (simp add: nat_add_distrib take_Suc_conv_app_nth)
  then have d: "dispense_ok ?s'"
    using iv(8) ql w t pn tk(1) by (simp add: dispense_ok_def taken_in_flight_def)
  have so: "started_open e ?s'"
    by (rule started_open_frame [OF iv(9)]) simp
  show ?thesis
    using iv(2,3) q l th c k d so by (simp add: invariant_def)
qed

lemma inv_Leaving:
  assumes inv: "invariant g e ps s" and w: "w < length (threads s)"
    and t: "threads s ! w = Leaving port"
  shows "invariant g e ps (thread_step g e w (Leaving port) s)"
proof -
  note iv = invariantD [OF inv]
  define t' where "t' = (if port = - 1 then Finished
     else In_body port (fst (worker_body g e (int w) port)) (snd (worker_body g e (int w) port)))"
  let ?s' = "s\<lparr>queue_lock := None,
       trace := trace s @ [(w, port, E_get_next_port port)],
       threads := (threads s)[w := t']\<rparr>"
  have "after_body port (fst (worker_body g e (int w) port)) (snd (worker_body g e (int w) port))
        = In_body port (fst (worker_body g e (int w) port)) (snd (worker_body g e (int w) port))"
    by (simp add: body_not_empty)
  then have s': "thread_step g e w (Leaving port) s = ?s'"
    by (simp add: t'_def case_prod_beta)
  have ql: "queue_lock s = Some w" and np: "print_lock s \<noteq> Some w"
    using locks_okD [OF iv(4) w] t by simp_all
  have l: "locks_ok ?s'"
    by (rule locks_ok_update [OF iv(4) w, where t' = t'])
       (use ql np in \<open>auto simp: t'_def fresh_body_outside\<close>)
  have th: "threads_ok g e ?s'"
  proof (rule threads_ok_update [OF iv(5) w, where t' = t'])
    show "thread_ok g e ?s' v (threads s ! v)" if "thread_ok g e s v (threads s ! v)" for v
      using that by (rule thread_ok_same_queue) simp
    have "if port = - 1 then size_q (queue s) \<le> index (queue s)
          else port \<in> set (ports (queue s))"
      using threads_okD [OF iv(5) w] t by simp
    then show "thread_ok g e ?s' w t'"
      by (simp add: t'_def body_not_empty)
  qed simp_all
  have op: "filter is_fprintf (fst (worker_body g e (int w) port)) \<noteq> [] \<longleftrightarrow> opens e port"
    by (auto simp: fprintf_of_body opens_def split: option.splits)
  have c: "ports_conserved e ?s'"
    by (rule ports_conserved_update [OF iv(6) w, where t' = t'])
       (simp_all add: t t'_def reported_snoc op)
  have k: "sink_ok g e ?s'"
    by (rule sink_ok_frame [OF iv(7)])
       (simp_all add: rest_of_block_frame [where w = w and t' = t'] np
          sink_trace_snoc started_snoc)
  have d: "dispense_ok ?s'"
    using iv(8) ql w t
    by (auto simp: dispense_ok_def taken_in_flight_def dispensed_snoc split: if_splits)
  have so: "started_open e ?s'"
    by (rule started_open_frame [OF iv(9)]) (simp add: started_snoc)
  show ?thesis
    unfolding s' using iv(1-3) l th c k d so by (simp add: invariant_def)
qed


lemma event_kinds:
  obtains "ev = E_lock" | "ev = E_unlock"
  | "is_printf ev \<or> is_fprintf ev \<or> ev = E_fflush" | "\<not> is_sink ev"
  by (cases ev) auto

lemma inv_In_body:
  assumes inv: "invariant g e ps s" and w: "w < length (threads s)"
    and t: "threads s ! w = In_body port evs0 fin"
  shows "invariant g e ps (thread_step g e w (In_body port evs0 fin) s)"
proof -
  note iv = invariantD [OF inv]
  have ok: "evs0 \<noteq> []" "port \<noteq> - 1" "port \<in> set (ports (queue s))"
    "suffix evs0 (fst (worker_body g e (int w) port))"
    "fin = snd (worker_body g e (int w) port)"
    using threads_okD [OF iv(5) w] t by simp_all
  then obtain ev evs where evs0: "evs0 = ev # evs"
    by (cases evs0) auto
  note suf = ok(4) [unfolded evs0]
  show ?thesis
  proof (cases "ev = E_lock \<and> print_lock s \<noteq> None")
    case True
    then show ?thesis using inv by (simp add: evs0)
  next
    case False
    define pl' where "pl' = (if ev = E_lock then Some w
                            else if ev = E_unlock then None else print_lock s)"
    define t' where "t' = after_body port evs fin"
    let ?s' = "s\<lparr>print_lock := pl', trace := trace s @ [(w, port, ev)],
                 threads := (threads s)[w := t']\<rparr>"
    have s': "thread_step g e w (In_body port evs0 fin) s = ?s'"
      using False by (auto simp: evs0 pl'_def t'_def)
    have nq: "queue_lock s \<noteq> Some w"
      and ins: "inside (ev # evs) = (print_lock s = Some w)"
      using locks_okD [OF iv(4) w] t by (simp_all add: evs0)
    have all3: "inside evs = (pl' = Some w)
      \<and> (\<forall>v. v \<noteq> w \<longrightarrow> (pl' = Some v) = (print_lock s = Some v))
      \<and> sink_trace (trace s @ [(w, port, ev)])
                 @ (case pl' of None \<Rightarrow> []
                    | Some v \<Rightarrow> rest_of_thread v (if v = w then t' else threads s ! v))
               = concat (map (record_block g e) (started (trace s @ [(w, port, ev)])))"
    proof -
      note k = iv(7) [unfolded sink_ok_def rest_of_block_alt]
      have rt: "rest_of_thread w (threads s ! w)
                = map (\<lambda>x. (w, port, x)) (filter is_sink (ev # evs))"
        by (simp add: t evs0 rest_of_thread_def)
      have rt': "rest_of_thread w t' = map (\<lambda>x. (w, port, x)) (filter is_sink evs)"
        by (simp add: t'_def rest_of_thread_after_body)
      consider (c_lock) "ev = E_lock" | (c_unlock) "ev = E_unlock"
        | (c_write) "is_printf ev \<or> is_fprintf ev \<or> ev = E_fflush" | (c_other) "\<not> is_sink ev"
        by (rule event_kinds)
      then show ?thesis
      proof cases
        case c_lock
        then have free: "print_lock s = None" using False by simp
        note bs = body_step_lock [OF suf [unfolded c_lock]]
        have a: "inside evs = (pl' = Some w)"
          using bs(2) c_lock by (simp add: pl'_def)
        have b: "(pl' = Some v) = (print_lock s = Some v)" if "v \<noteq> w" for v
          using that c_lock free by (simp add: pl'_def)
        have "record_block g e (w, port)
              = (w, port, E_lock) # map (\<lambda>x. (w, port, x)) (filter is_sink evs)"
          using bs(4) [symmetric] by (simp add: record_block_def)
        then have c: "sink_trace (trace s @ [(w, port, ev)])
                 @ (case pl' of None \<Rightarrow> []
                    | Some v \<Rightarrow> rest_of_thread v (if v = w then t' else threads s ! v))
               = concat (map (record_block g e) (started (trace s @ [(w, port, ev)])))"
          using k free c_lock by (simp add: pl'_def sink_trace_snoc started_snoc rt')
        show ?thesis using a b c by blast
      next
        case c_unlock
        note bs = body_step_unlock [OF suf [unfolded c_unlock]]
        have own: "print_lock s = Some w"
          using ins bs(1) c_unlock by simp
        have a: "inside evs = (pl' = Some w)"
          using bs(2) c_unlock by (simp add: pl'_def)
        have b: "(pl' = Some v) = (print_lock s = Some v)" if "v \<noteq> w" for v
          using that c_unlock own by (simp add: pl'_def)
        have c: "sink_trace (trace s @ [(w, port, ev)])
                 @ (case pl' of None \<Rightarrow> []
                    | Some v \<Rightarrow> rest_of_thread v (if v = w then t' else threads s ! v))
               = concat (map (record_block g e) (started (trace s @ [(w, port, ev)])))"
          using k own c_unlock bs(3) by (simp add: pl'_def sink_trace_snoc started_snoc rt)
        show ?thesis using a b c by blast
      next
        case c_write
        note bs = body_step_write [OF suf c_write]
        have sk: "is_sink ev" and nl: "ev \<noteq> E_lock" "ev \<noteq> E_unlock"
          using c_write by (cases ev; simp)+
        have own: "print_lock s = Some w"
          using ins bs(1) by simp
        have a: "inside evs = (pl' = Some w)"
          using bs(2) nl own by (simp add: pl'_def)
        have b: "(pl' = Some v) = (print_lock s = Some v)" if "v \<noteq> w" for v
          using nl by (simp add: pl'_def)
        have c: "sink_trace (trace s @ [(w, port, ev)])
                 @ (case pl' of None \<Rightarrow> []
                    | Some v \<Rightarrow> rest_of_thread v (if v = w then t' else threads s ! v))
               = concat (map (record_block g e) (started (trace s @ [(w, port, ev)])))"
          using k own nl sk by (simp add: pl'_def sink_trace_snoc started_snoc rt rt')
        show ?thesis using a b c by blast
      next
        case c_other
        note bs = body_step_other [OF c_other, of evs]
        have nl: "ev \<noteq> E_lock" "ev \<noteq> E_unlock"
          using c_other by auto
        have a: "inside evs = (pl' = Some w)"
          using bs(1) ins nl by (simp add: pl'_def)
        have b: "(pl' = Some v) = (print_lock s = Some v)" if "v \<noteq> w" for v
          using nl by (simp add: pl'_def)
        have "rest_of_thread w t' = rest_of_thread w (threads s ! w)"
          using rt rt' bs(2) by simp
        then have c: "sink_trace (trace s @ [(w, port, ev)])
                 @ (case pl' of None \<Rightarrow> []
                    | Some v \<Rightarrow> rest_of_thread v (if v = w then t' else threads s ! v))
               = concat (map (record_block g e) (started (trace s @ [(w, port, ev)])))"
          using k nl c_other
          by (auto simp: pl'_def sink_trace_snoc started_snoc split: option.splits)
        show ?thesis using a b c by blast
      qed
    qed
    note p1 = all3 [THEN conjunct1]
    have p2: "(pl' = Some v) = (print_lock s = Some v)" if "v \<noteq> w" for v
      using all3 that by blast
    note sk = all3 [THEN conjunct2, THEN conjunct2]
    have l: "locks_ok ?s'"
      by (rule locks_ok_update [OF iv(4) w, where t' = t'])
         (use nq p1 p2 in \<open>simp_all add: t'_def in_queue_section_after_body
             in_print_section_after_body\<close>)
    have th: "threads_ok g e ?s'"
    proof (rule threads_ok_update [OF iv(5) w, where t' = t'])
      show "thread_ok g e ?s' v (threads s ! v)" if "thread_ok g e s v (threads s ! v)" for v
        using that by (rule thread_ok_same_queue) simp
      show "thread_ok g e ?s' w t'"
        unfolding t'_def by (rule thread_ok_after_body [OF suf ok(5) ok(2)]) (simp add: ok(3))
    qed simp_all
    have one: "filter is_fprintf evs = []" if "is_fprintf ev"
      using body_step_write(4) [OF suf _ that] that by simp
    have c: "ports_conserved e ?s'"
      by (rule ports_conserved_update [OF iv(6) w, where t' = t'])
         (use one in \<open>auto simp: t evs0 t'_def reported_snoc pending_after_body\<close>)
    have "rest_of_block ?s'
          = (case pl' of None \<Rightarrow> []
             | Some v \<Rightarrow> rest_of_thread v (if v = w then t' else threads s ! v))"
      using w by (auto simp: rest_of_block_alt split: option.splits)
    then have k: "sink_ok g e ?s'"
      using sk by (simp add: sink_ok_def)
    have ng: "\<not> is_get_next_port ev"
    proof -
      have "ev \<in> set (fst (worker_body g e (int w) port))"
        using suf by (auto simp: suffix_def)
      moreover have "filter is_get_next_port (fst (worker_body g e (int w) port)) = []"
        by (simp add: fst_worker_body_cases fst_read_banner report_def split: option.splits)
      ultimately show ?thesis
        by (simp add: filter_empty_conv)
    qed
    have d: "dispense_ok ?s'"
      by (rule dispense_ok_frame [OF iv(8)])
         (simp_all add: dispensed_snoc ng taken_in_flight_frame [where w = w and t' = t'] nq)
    have so: "started_open e ?s'"
    proof (cases "ev = E_lock")
      case True
      have "filter is_sink (fst (worker_body g e (int w) port)) \<noteq> []"
        using body_step_lock(4) [OF suf [unfolded True]] by (metis list.distinct(1))
      then have "opens e port"
        by (auto simp: sink_of_body opens_def split: option.splits if_splits)
      then show ?thesis
        using iv(9) by (simp add: started_open_def started_snoc)
    next
      case False
      then show ?thesis
        by (intro started_open_frame [OF iv(9)]) (simp add: started_snoc)
    qed
    show ?thesis
      unfolding s' using iv(1-3) l th c k d so by (simp add: invariant_def)
  qed
qed

lemma invariant_step:
  assumes "invariant g e ps s"
  shows "invariant g e ps (step g e w s)"
proof (cases "w < length (threads s)")
  case False
  then show ?thesis using assms by (simp add: step_def)
next
  case True
  show ?thesis
  proof (cases "threads s ! w")
    case At_top
    then show ?thesis using inv_At_top [OF assms True] True by (simp add: step_def)
  next
    case In_queue
    then show ?thesis using inv_In_queue [OF assms True] True by (simp add: step_def)
  next
    case (Taking i port)
    then show ?thesis using inv_Taking [OF assms True] True by (simp add: step_def)
  next
    case (Leaving port)
    then show ?thesis using inv_Leaving [OF assms True] True by (simp add: step_def)
  next
    case (In_body port evs fin)
    then show ?thesis using inv_In_body [OF assms True] True by (simp add: step_def)
  next
    case Finished
    then show ?thesis using assms True by (simp add: step_def)
  next
    case Crashed
    then show ?thesis using assms True by (simp add: step_def)
  qed
qed

lemma invariant_run:
  assumes "invariant g e ps s"
  shows "invariant g e ps (run g e sched s)"
  using assms by (induction sched arbitrary: s) (simp_all add: invariant_step)

lemma clamp_threads_bounds: "1 \<le> clamp_threads n" "clamp_threads n \<le> 5000"
  by (simp_all add: clamp_threads_def Let_def)

lemma sum_list_replicate_empty: "sum_list (replicate n ({#} :: int multiset)) = {#}"
  by (induction n) simp_all

lemma invariant_start:
  assumes "queue_ok q" and "- 1 \<notin> set (ports q)" and "index q = 0"
  shows "invariant g e (ports q) (start_threads n q)"
  using assms
  by (simp add: invariant_def start_threads_def locks_ok_def threads_ok_def
        ports_conserved_def sink_ok_def dispense_ok_def list_all_iff reported_def
        sink_trace_def started_def rest_of_block_def dispensed_def taken_in_flight_def
        sum_list_replicate_empty started_open_def)

lemma invariant_main:
  assumes "1 \<le> start" and "start \<le> end" and "end \<le> 65535"
  shows "invariant g e [start..end] (main_system n garbage start end)"
proof -
  let ?q = "init_queue garbage start end"
  have "invariant g e (ports ?q) (start_threads (clamp_threads n) ?q)"
    using assms by (intro invariant_start queue_ok_init)
      (simp_all add: ports_init_queue index_init_queue)
  then show ?thesis
    using assms(2) by (simp add: main_system_def ports_init_queue)
qed

lemma length_threads_step: "length (threads (step g e w s)) = length (threads s)"
proof (cases "w < length (threads s)")
  case False
  then show ?thesis by (simp add: step_def)
next
  case True
  then show ?thesis
    by (cases "(g, e, w, threads s ! w, s)" rule: thread_step.cases)
       (auto simp: step_def)
qed


lemma length_threads_run: "length (threads (run g e sched s)) = length (threads s)"
  by (induction sched arbitrary: s) (simp_all add: length_threads_step)

lemma length_threads_main:
  "length (threads (main_system n garbage start end)) = nat (clamp_threads n)"
  by (simp add: main_system_def start_threads_def)

lemma sum_list_finished:
  assumes "list_all (\<lambda>t. t = Finished) ts"
  shows "sum_list (map (pending e) ts) = {#}"
  using assms by (induction ts) simp_all

text \<open>
  At the end of a complete scan, with sockets available for every port of the range, the
  ports reported in the file are the ports that open, each once.
\<close>

lemma complete_scan_reports:
  assumes inv: "invariant g e ps s" and fin: "all_finished s" and n: "threads s \<noteq> []"
    and socks: "\<forall>p \<in> set ps. socket_result e p \<noteq> None"
  shows "mset (reported (trace s)) = mset (filter (\<lambda>p. connect_result e (htons p) = 0) ps)"
    and "index (queue s) = size_q (queue s)"
proof -
  note iv = invariantD [OF inv]
  have "threads s ! 0 = Finished"
    using fin n by (cases "threads s") (simp_all add: all_finished_def)
  then have "thread_ok g e s 0 Finished"
    using threads_okD [OF iv(5), of 0] n by simp
  then have ex: "size_q (queue s) \<le> index (queue s)"
    using socks iv(2) by auto
  then show "index (queue s) = size_q (queue s)"
    using iv(1) by (simp add: queue_ok_def)
  have dr: "drop (nat (index (queue s))) ps = []"
    using ex iv(1,2) by (auto simp: queue_ok_def)
  have "mset (reported (trace s)) = mset (filter (opens e) ps)"
    using iv(6) fin by (simp add: ports_conserved_def dr sum_list_finished all_finished_def iv(2))
  moreover have "filter (opens e) ps = filter (\<lambda>p. connect_result e (htons p) = 0) ps"
    using socks by (intro filter_cong) (auto simp: opens_def)
  ultimately show "mset (reported (trace s))
                     = mset (filter (\<lambda>p. connect_result e (htons p) = 0) ps)"
    by simp
qed

lemma snd_read_banner: "snd (read_banner g e s port) = banner_read g e port"
  by (simp add: banner_read_def read_banner_def Let_def split: prod.splits)

lemma record_block_open:
  assumes "opens e port"
  shows "record_block g e (w, port) = record_calls g e (w, port)"
  using assms
  by (auto simp: record_block_def record_calls_def sink_of_body opens_def report_def
        snd_read_banner)

lemma blocks_of_started:
  assumes "started_open e s"
  shows "concat (map (record_block g e) (started (trace s)))
         = concat (map (record_calls g e) (started (trace s)))"
proof -
  have "record_block g e wp = record_calls g e wp" if "wp \<in> set (started (trace s))" for wp
    using assms that record_block_open [of e "snd wp" g "fst wp"]
    by (auto simp: started_open_def list_all_iff)
  then have "map (record_block g e) (started (trace s)) = map (record_calls g e) (started (trace s))"
    by (intro map_cong refl)
  then show ?thesis by (simp only:)
qed

lemma log_file_sink: "log_file tr = log_file (sink_trace tr)"
proof -
  have "filter (\<lambda>(w, port, ev). is_fprintf ev) (filter (\<lambda>(w, port, ev). is_sink ev) tr)
        = filter (\<lambda>(w, port, ev). is_fprintf ev) tr"
    by (induction tr) (auto elim: is_fprintf.elims)
  then show ?thesis
    by (simp add: log_file_def sink_trace_def)
qed

lemma log_file_records:
  "log_file (concat (map (record_calls g e) wps))
     = map (\<lambda>(w, port). file_line (int w) port (fst (banner_read g e port))
                           (snd (banner_read g e port))) wps"
  by (induction wps) (auto simp: log_file_def record_calls_def)

lemma sum_list_update_nat:
  fixes f :: "'a \<Rightarrow> nat"
  assumes "w < length ts"
  shows "sum_list (map f (ts[w := t'])) + f (ts ! w) = sum_list (map f ts) + f t'"
  using assms
proof (induction ts arbitrary: w)
  case Nil
  then show ?case by simp
next
  case (Cons a ts)
  show ?case
  proof (cases w)
    case 0
    then show ?thesis by simp
  next
    case (Suc k)
    then show ?thesis
      using Cons.IH [of k] Cons.prems by simp
  qed
qed

lemma work_left_update:
  assumes "w < length (threads s)" and "threads s' = (threads s)[w := t']"
    and "20 * nat (size_q (queue s') - index (queue s')) + rank t'
         < 20 * nat (size_q (queue s) - index (queue s)) + rank (threads s ! w)"
  shows "work_left s' < work_left s"
  using sum_list_update_nat [OF assms(1), of rank t'] assms(2,3)
  by (simp add: work_left_def)

lemma length_body: "length (fst (worker_body g e thread_id port)) \<le> 11"
  by (simp add: fst_worker_body_cases fst_read_banner report_def split: option.splits)

lemma rank_after_body: "rank (after_body port evs fin) < rank (In_body port (ev # evs) fin)"
  by (cases evs; cases fin) simp_all

lemma work_left_step:
  assumes inv: "invariant g e ps s" and w: "w < length (threads s)"
    and mv: "can_move s (threads s ! w)"
  shows "work_left (step g e w s) < work_left s"
proof (cases "threads s ! w")
  case At_top
  then show ?thesis
    using w mv by (intro work_left_update [OF w, where t' = In_queue]) (simp_all add: step_def)
next
  case In_queue
  have "queue_ok (queue s)" using invariantD(1) [OF inv] .
  then show ?thesis
    using w In_queue
    by (intro work_left_update [OF w,
          where t' = "if size_q (queue s) \<le> index (queue s) then Leaving (- 1)
                      else Taking (index (queue s)) (ports (queue s) ! nat (index (queue s)))"])
       (auto simp: step_def queue_ok_def)
next
  case (Taking i port)
  have "i = index (queue s)" "i < size_q (queue s)"
    using threads_okD [OF invariantD(5) [OF inv] w] Taking by simp_all
  then show ?thesis
    using w Taking
    by (intro work_left_update [OF w, where t' = "Leaving port"]) (auto simp: step_def)
next
  case (Leaving port)
  show ?thesis
  proof (cases "port = - 1")
    case True
    then show ?thesis
      using w Leaving
      by (intro work_left_update [OF w, where t' = Finished]) (auto simp: step_def)
  next
    case False
    let ?b = "worker_body g e (int w) port"
    have "rank (In_body port (fst ?b) (snd ?b)) \<le> 15"
      using length_body [of g e "int w" port] by (cases "snd ?b") simp_all
    then show ?thesis
      using w Leaving False
      by (intro work_left_update [OF w, where t' = "In_body port (fst ?b) (snd ?b)"])
         (auto simp: step_def case_prod_beta body_not_empty)
  qed
next
  case (In_body port evs fin)
  then obtain ev evs' where evs: "evs = ev # evs'"
    using threads_okD [OF invariantD(5) [OF inv] w] by (cases evs) auto
  show ?thesis
    using w In_body evs mv rank_after_body [of port evs' fin ev]
    by (intro work_left_update [OF w, where t' = "after_body port evs' fin"])
       (auto simp: step_def)
next
  case Finished
  then show ?thesis using mv by simp
next
  case Crashed
  then show ?thesis using mv by simp
qed

lemma inside_head:
  assumes "inside (ev # evs)"
  shows "ev \<noteq> E_lock"
  using assms by (auto simp: inside_def)

lemma some_thread_can_move:
  assumes inv: "invariant g e ps s" and nf: "\<not> all_finished s"
  shows "\<exists>w < length (threads s). can_move s (threads s ! w)"
proof -
  note iv = invariantD [OF inv]
  show ?thesis
  proof (cases "queue_lock s")
    case (Some v)
    have v: "v < length (threads s)"
      using locks_ok_owner(1) [OF iv(4) Some] .
    have "in_queue_section (threads s ! v)"
      using locks_okD(1) [OF iv(4) v] Some by simp
    then have "can_move s (threads s ! v)"
      by (cases "threads s ! v") simp_all
    then show ?thesis using v by blast
  next
    case None
    show ?thesis
    proof (cases "print_lock s")
      case (Some v)
      have v: "v < length (threads s)"
        using locks_ok_owner(2) [OF iv(4) Some] .
      have "in_print_section (threads s ! v)"
        using locks_okD(2) [OF iv(4) v] Some by simp
      then obtain port evs fin where t: "threads s ! v = In_body port evs fin"
        and ins: "inside evs"
        by (cases "threads s ! v") simp_all
      have "evs \<noteq> []"
        using ins by (auto simp: inside_def)
      then obtain ev evs' where evs: "evs = ev # evs'"
        by (cases evs) simp_all
      have "ev \<noteq> E_lock"
        using ins inside_head [of ev evs'] by (simp add: evs)
      then have "can_move s (threads s ! v)"
        using t evs by simp
      then show ?thesis using v by blast
    next
      case free: None
      obtain w where w: "w < length (threads s)" and t: "threads s ! w \<noteq> Finished"
        using nf by (auto simp: all_finished_def list_all_length)
      have ok: "thread_ok g e s w (threads s ! w)"
        using threads_okD [OF iv(5) w] .
      have nq: "\<not> in_queue_section (threads s ! w)"
        using locks_okD(1) [OF iv(4) w] None by simp
      have "can_move s (threads s ! w)"
      proof (cases "threads s ! w")
        case At_top
        then show ?thesis using None by simp
      next
        case In_queue
        then show ?thesis by simp
      next
        case (Taking i port)
        then show ?thesis by simp
      next
        case (Leaving port)
        then show ?thesis by simp
      next
        case (In_body port evs fin)
        then have "evs \<noteq> []"
          using ok by simp
        then obtain ev evs' where "evs = ev # evs'"
          by (cases evs) simp_all
        then show ?thesis using In_body free by simp
      next
        case Finished
        then show ?thesis using t by simp
      next
        case Crashed
        then show ?thesis using ok by simp
      qed
      then show ?thesis using w by blast
    qed
  qed
qed

text \<open>Every scan can be brought to its end: some schedule lets every thread return.\<close>

lemma complete_run_exists:
  assumes "invariant g e ps s"
  shows "\<exists>sched. all_finished (run g e sched s)"
  using assms
proof (induction "work_left s" arbitrary: s rule: less_induct)
  case less
  show ?case
  proof (cases "all_finished s")
    case True
    then have "all_finished (run g e [] s)" by simp
    then show ?thesis by blast
  next
    case False
    obtain w where w: "w < length (threads s)" and mv: "can_move s (threads s ! w)"
      using some_thread_can_move [OF less.prems False] by blast
    have "work_left (step g e w s) < work_left s"
      by (rule work_left_step [OF less.prems w mv])
    then obtain sched where "all_finished (run g e sched (step g e w s))"
      using less.hyps [of "step g e w s"] invariant_step [OF less.prems] by blast
    then have "all_finished (run g e (w # sched) s)" by simp
    then show ?thesis by blast
  qed
qed

lemma finished_locks_free:
  assumes inv: "invariant g e ps s" and fin: "all_finished s"
  shows "print_lock s = None" and "queue_lock s = None"
proof -
  note iv = invariantD [OF inv]
  have f: "threads s ! v = Finished" if "v < length (threads s)" for v
    using fin that by (simp add: all_finished_def list_all_length)
  show "print_lock s = None"
  proof (cases "print_lock s")
    case (Some v)
    then show ?thesis
      using locks_okD(2) [OF iv(4), of v] locks_ok_owner(2) [OF iv(4) Some] f [of v] by simp
  qed simp
  show "queue_lock s = None"
  proof (cases "queue_lock s")
    case (Some v)
    then show ?thesis
      using locks_okD(1) [OF iv(4), of v] locks_ok_owner(1) [OF iv(4) Some] f [of v] by simp
  qed simp
qed

lemma reported_sink: "reported tr = reported (sink_trace tr)"
proof -
  have "filter (\<lambda>(w, port, ev). is_fprintf ev) (filter (\<lambda>(w, port, ev). is_sink ev) tr)
        = filter (\<lambda>(w, port, ev). is_fprintf ev) tr"
    by (induction tr) (auto elim: is_fprintf.elims)
  then show ?thesis
    by (simp add: reported_def sink_trace_def)
qed

lemma displayed_sink: "displayed tr = displayed (sink_trace tr)"
proof -
  have "filter (\<lambda>(w, port, ev). is_printf ev) (filter (\<lambda>(w, port, ev). is_sink ev) tr)
        = filter (\<lambda>(w, port, ev). is_printf ev) tr"
    by (induction tr) (auto elim: is_printf.elims)
  then show ?thesis
    by (simp add: displayed_def sink_trace_def)
qed

lemma ports_of_records:
  "reported (concat (map (record_calls g e) wps)) = map snd wps"
  "displayed (concat (map (record_calls g e) wps)) = map snd wps"
  by (induction wps) (auto simp: reported_def displayed_def record_calls_def)

lemma outputs_agree:
  assumes inv: "invariant g e ps s" and free: "print_lock s = None"
  shows "reported (trace s) = map snd (started (trace s))"
    and "displayed (trace s) = map snd (started (trace s))"
proof -
  note iv = invariantD [OF inv]
  have "sink_trace (trace s) = concat (map (record_calls g e) (started (trace s)))"
    using iv(7) blocks_of_started [OF iv(9), of g] free
    by (simp add: sink_ok_def rest_of_block_def)
  then show "reported (trace s) = map snd (started (trace s))"
    and "displayed (trace s) = map snd (started (trace s))"
    using reported_sink [of "trace s"] displayed_sink [of "trace s"]
    by (simp_all add: ports_of_records)
qed

text \<open>
  The values returned by \<^verbatim>\<open>get_next_port\<close> other than \<open>-1\<close>, in the order of the returns,
  are the ports of the array before the cursor, as soon as no thread holds \<^verbatim>\<open>q->lock\<close>: the
  threads together take the ports one by one, in the order of the array, whatever the
  order in which they move.
\<close>

lemma dispensed_in_order:
  assumes "1 \<le> start" and "start \<le> end" and "end \<le> 65535"
    and "queue_lock (run g e sched (main_system n garbage start end)) = None"
  shows "filter (\<lambda>port. port \<noteq> - 1)
           (map snd (dispensed (trace (run g e sched (main_system n garbage start end)))))
         = take (nat (index (queue (run g e sched (main_system n garbage start end)))))
             [start..end]"
proof -
  let ?s = "run g e sched (main_system n garbage start end)"
  have inv: "invariant g e [start..end] ?s"
    by (rule invariant_run) (rule invariant_main [OF assms(1-3)])
  show ?thesis
    using invariantD(8) [OF inv] invariantD(2) [OF inv] assms(4)
    by (simp add: dispense_ok_def taken_in_flight_def)
qed

text \<open>
  In every state of a scan over a range of ports the numbers the program works with
  stay small: the cursor lies between 0 and the size, the size is at most 65535, the
  ports lie between 1 and 65535 and there are at most 5000 threads. No operation on
  \<^verbatim>\<open>int\<close> leaves the range of 32 bits.
\<close>

lemma values_stay_small:
  assumes "1 \<le> start" and "start \<le> end" and "end \<le> 65535"
  shows "0 \<le> index (queue (run g e sched (main_system n garbage start end)))"
    and "index (queue (run g e sched (main_system n garbage start end)))
           \<le> size_q (queue (run g e sched (main_system n garbage start end)))"
    and "size_q (queue (run g e sched (main_system n garbage start end))) \<le> 65535"
    and "set (ports (queue (run g e sched (main_system n garbage start end)))) \<subseteq> {1..65535}"
    and "length (threads (run g e sched (main_system n garbage start end))) \<le> 5000"
proof -
  let ?s = "run g e sched (main_system n garbage start end)"
  have inv: "invariant g e [start..end] ?s"
    by (rule invariant_run) (rule invariant_main [OF assms])
  note iv = invariantD [OF inv]
  show "0 \<le> index (queue ?s)" "index (queue ?s) \<le> size_q (queue ?s)"
    using iv(1) by (simp_all add: queue_ok_def)
  show "size_q (queue ?s) \<le> 65535"
    using iv(1,2) assms by (simp add: queue_ok_def)
  show "set (ports (queue ?s)) \<subseteq> {1..65535}"
    using iv(2) assms by auto
  show "length (threads ?s) \<le> 5000"
    using clamp_threads_bounds [of n]
    by (simp add: length_threads_run length_threads_main)
qed

text \<open>
  Failures of \<^verbatim>\<open>socket\<close>: a thread returns before the queue is exhausted only at such a
  failure, and it has at most one; the failures are at different ports.
\<close>

lemma met_failure_snoc:
  "met_failure (tr @ [(v, port, ev)]) w \<longleftrightarrow> met_failure tr w \<or> v = w \<and> ev = E_socket None"
  by (auto simp: met_failure_def)

lemma body_failure:
  assumes "suffix (ev # evs) (fst (worker_body g e thread_id port))"
    and "fin = snd (worker_body g e thread_id port)"
  shows "ev = E_socket None \<longleftrightarrow> after_body port evs fin = Finished"
proof (cases "socket_result e port")
  case None
  then have b: "worker_body g e thread_id port = ([E_socket None], Returned)"
    by (rule worker_body_no_socket)
  have "ev = E_socket None \<and> evs = []"
    using assms(1) unfolding b by (auto simp: suffix_Cons)
  then show ?thesis
    using assms(2) b by simp
next
  case (Some sock)
  have "ev \<in> set (fst (worker_body g e thread_id port))"
    using assms(1) by (auto simp: suffix_def)
  then have ne: "ev \<noteq> E_socket None"
    using Some by (auto simp: fst_worker_body_cases fst_read_banner report_def split: if_splits)
  have "fin \<noteq> Returned"
    using assms(2) Some worker_body_returned_iff [of g e thread_id port] by simp
  then obtain out where "fin = Looped out"
    by (cases fin) simp_all
  then have "after_body port evs fin \<noteq> Finished"
    by (cases evs) simp_all
  then show ?thesis
    using ne by simp
qed

lemma returns_okD:
  assumes "returns_ok s" and "w < length (threads s)"
  shows "met_failure (trace s) w \<Longrightarrow> threads s ! w = Finished"
    and "threads s ! w = Finished \<Longrightarrow> \<not> met_failure (trace s) w \<Longrightarrow>
           size_q (queue s) \<le> index (queue s)"
  using assms by (auto simp: returns_ok_def list_all_iff)

lemma returns_ok_update:
  assumes "returns_ok s" and "w < length (threads s)"
    and "threads s' = (threads s)[w := t']"
    and "\<And>v. v \<noteq> w \<Longrightarrow> met_failure (trace s') v = met_failure (trace s) v"
    and "size_q (queue s) \<le> index (queue s) \<Longrightarrow> size_q (queue s') \<le> index (queue s')"
    and "met_failure (trace s') w \<Longrightarrow> t' = Finished"
    and "t' = Finished \<Longrightarrow> met_failure (trace s') w \<or> size_q (queue s') \<le> index (queue s')"
  shows "returns_ok s'"
proof -
  have "(met_failure (trace s') v \<longrightarrow> threads s' ! v = Finished)
        \<and> (threads s' ! v = Finished \<longrightarrow>
             met_failure (trace s') v \<or> size_q (queue s') \<le> index (queue s'))"
    if v: "v < length (threads s')" for v
  proof (cases "v = w")
    case True
    then show ?thesis
      using assms(2,3,6,7) by auto
  next
    case False
    have v': "v < length (threads s)"
      using v assms(3) by simp
    show ?thesis
      using False assms(3) assms(4) [OF False] assms(5)
        returns_okD(1) [OF assms(1) v'] returns_okD(2) [OF assms(1) v']
      by auto
  qed
  then show ?thesis
    by (simp add: returns_ok_def list_all_iff)
qed

lemma returns_ok_step:
  assumes inv: "invariant g e ps s" and r: "returns_ok s"
  shows "returns_ok (step g e w s)"
proof (cases "w < length (threads s)")
  case False
  then show ?thesis using r by (simp add: step_def)
next
  case w: True
  note ok = threads_okD [OF invariantD(5) [OF inv] w]
  show ?thesis
  proof (cases "threads s ! w")
    case At_top
    have nm: "\<not> met_failure (trace s) w"
      using returns_okD(1) [OF r w] At_top by auto
    show ?thesis
    proof (cases "queue_lock s = None")
      case True
      then have st: "step g e w s = s\<lparr>queue_lock := Some w, threads := (threads s)[w := In_queue]\<rparr>"
        using w At_top by (simp add: step_def)
      show ?thesis
        unfolding st using nm by (intro returns_ok_update [OF r w, where t' = In_queue]) simp_all
    next
      case False
      then have "step g e w s = s"
        using w At_top by (auto simp: step_def)
      then show ?thesis using r by simp
    qed
  next
    case In_queue
    have nm: "\<not> met_failure (trace s) w"
      using returns_okD(1) [OF r w] In_queue by auto
    define t' where "t' =
      (if size_q (queue s) \<le> index (queue s) then Leaving (- 1)
       else if 0 \<le> index (queue s) \<and> nat (index (queue s)) < length (ports (queue s))
         then Taking (index (queue s)) (ports (queue s) ! nat (index (queue s)))
         else Crashed)"
    have st: "step g e w s = s\<lparr>threads := (threads s)[w := t']\<rparr>"
      using w In_queue by (simp add: step_def t'_def)
    have t': "t' \<noteq> Finished"
      by (simp add: t'_def)
    show ?thesis
      unfolding st using nm t' by (intro returns_ok_update [OF r w, where t' = t']) simp_all
  next
    case (Taking i port)
    have nm: "\<not> met_failure (trace s) w"
      using returns_okD(1) [OF r w] Taking by auto
    have i: "i = index (queue s)"
      using ok Taking by simp
    have st: "step g e w s
              = s\<lparr>queue := (queue s)\<lparr>index := i + 1\<rparr>, threads := (threads s)[w := Leaving port]\<rparr>"
      using w Taking by (simp add: step_def)
    show ?thesis
      unfolding st using nm i
      by (intro returns_ok_update [OF r w, where t' = "Leaving port"]) simp_all
  next
    case (Leaving port)
    have nm: "\<not> met_failure (trace s) w"
      using returns_okD(1) [OF r w] Leaving by auto
    let ?t = "if port = - 1 then Finished
              else (case worker_body g e (int w) port of (evs, fin) \<Rightarrow> after_body port evs fin)"
    have st: "step g e w s
              = s\<lparr>queue_lock := None, trace := trace s @ [(w, port, E_get_next_port port)],
                  threads := (threads s)[w := ?t]\<rparr>"
      using w Leaving by (simp add: step_def)
    have ex: "size_q (queue s) \<le> index (queue s)" if "?t = Finished"
    proof (cases "port = - 1")
      case True
      then show ?thesis using ok Leaving by simp
    next
      case False
      have "fst (worker_body g e (int w) port) \<noteq> []"
        by (rule body_not_empty)
      then have "?t \<noteq> Finished"
        using False by (simp add: case_prod_beta)
      then show ?thesis using that by simp
    qed
    show ?thesis
      unfolding st using nm ex
      by (intro returns_ok_update [OF r w, where t' = ?t]) (simp_all add: met_failure_snoc)
  next
    case (In_body port evs fin)
    have nm: "\<not> met_failure (trace s) w"
      using returns_okD(1) [OF r w] In_body by auto
    obtain ev evs' where evs: "evs = ev # evs'"
      using ok In_body by (cases evs) auto
    have bf: "ev = E_socket None \<longleftrightarrow> after_body port evs' fin = Finished"
      using ok In_body evs by (intro body_failure [where g = g and e = e and thread_id = "int w"]) simp_all
    show ?thesis
    proof (cases "ev = E_lock \<and> print_lock s \<noteq> None")
      case True
      then have "step g e w s = s"
        using w In_body evs by (simp add: step_def)
      then show ?thesis using r by simp
    next
      case False
      then have st: "step g e w s
              = s\<lparr>print_lock := (if ev = E_lock then Some w
                                 else if ev = E_unlock then None else print_lock s),
                  trace := trace s @ [(w, port, ev)],
                  threads := (threads s)[w := after_body port evs' fin]\<rparr>"
        using w In_body evs by (auto simp: step_def)
      show ?thesis
        unfolding st using nm bf
        by (intro returns_ok_update [OF r w, where t' = "after_body port evs' fin"])
           (simp_all add: met_failure_snoc)
    qed
  next
    case Finished
    then show ?thesis using r w by (simp add: step_def)
  next
    case Crashed
    then show ?thesis using r w by (simp add: step_def)
  qed
qed

lemma returns_ok_run:
  assumes "invariant g e ps s" and "returns_ok s"
  shows "returns_ok (run g e sched s)"
  using assms by (induction sched arbitrary: s) (simp_all add: invariant_step returns_ok_step)

lemma returns_ok_main: "returns_ok (main_system n garbage start end)"
  by (simp add: returns_ok_def main_system_def start_threads_def list_all_iff met_failure_def)

lemma complete_scan_reports_taken:
  assumes inv: "invariant g e ps s" and fin: "all_finished s"
  shows "mset (reported (trace s))
         = mset (filter (opens e) (take (nat (index (queue s))) ps))"
proof -
  note iv = invariantD [OF inv]
  have "mset (filter (opens e) ps)
        = mset (filter (opens e) (take (nat (index (queue s))) ps))
          + mset (filter (opens e) (drop (nat (index (queue s))) ps))"
    by (metis append_take_drop_id filter_append mset_append)
  moreover have "mset (reported (trace s))
                 + mset (filter (opens e) (drop (nat (index (queue s))) ps))
               = mset (filter (opens e) ps)"
    using iv(6) fin by (simp add: ports_conserved_def sum_list_finished all_finished_def iv(2))
  ultimately show ?thesis
    by simp
qed

lemma reported_open:
  assumes inv: "invariant g e ps s" and p: "p \<in> set (reported (trace s))"
  shows "socket_result e p \<noteq> None"
proof -
  note iv = invariantD [OF inv]
  have "mset (reported (trace s)) \<subseteq># mset (filter (opens e) ps)"
    using iv(6) unfolding ports_conserved_def iv(2)
    by (metis mset_subset_eq_add_left add.assoc)
  then have "set (reported (trace s)) \<subseteq> set (filter (opens e) ps)"
    using set_mset_mono by fastforce
  then show ?thesis
    using p by (auto simp: opens_def)
qed

lemma dispensed_distinct:
  assumes inv: "invariant g e ps s" and d: "distinct ps"
  shows "distinct (filter (\<lambda>port. port \<noteq> - 1) (map snd (dispensed (trace s))))"
proof -
  have "filter (\<lambda>port. port \<noteq> - 1) (map snd (dispensed (trace s))) @ taken_in_flight s
        = take (nat (index (queue s))) ps"
    using invariantD(8) [OF inv] invariantD(2) [OF inv] by (simp add: dispense_ok_def)
  moreover have "distinct (take (nat (index (queue s))) ps)"
    using d by (rule distinct_take)
  ultimately show ?thesis
    by (metis distinct_append)
qed

lemma returned_at_exhaustion:
  assumes inv: "invariant g e ps s" and r: "returns_ok s"
    and w: "w < length (threads s)" and t: "threads s ! w = Finished"
    and nm: "\<not> met_failure (trace s) w"
  shows "index (queue s) = size_q (queue s)"
  using returns_okD(2) [OF r w t nm] invariantD(1) [OF inv]
  by (simp add: queue_ok_def)

lemma all_dispensed:
  assumes inv: "invariant g e ps s" and fin: "all_finished s"
    and ex: "index (queue s) = size_q (queue s)"
  shows "filter (\<lambda>port. port \<noteq> - 1) (map snd (dispensed (trace s))) = ps"
proof -
  note iv = invariantD [OF inv]
  have "queue_lock s = None"
    by (rule finished_locks_free(2) [OF inv fin])
  then have "filter (\<lambda>port. port \<noteq> - 1) (map snd (dispensed (trace s)))
        = take (nat (index (queue s))) ps"
    using iv(8) iv(2) by (simp add: dispense_ok_def taken_in_flight_def)
  moreover have "nat (index (queue s)) = length ps"
    using iv(1) iv(2) ex by (simp add: queue_ok_def)
  ultimately show ?thesis
    by simp
qed

lemma failures_snoc:
  "failures (tr @ [(w, port, ev)])
     = failures tr @ (if ev = E_socket None then [(w, port)] else [])"
  by (simp add: failures_def)

lemma met_failure_iff: "met_failure tr w \<longleftrightarrow> w \<in> fst ` set (failures tr)"
  by (force simp: met_failure_def failures_def list_ex_iff)

lemma failures_okD:
  assumes "failures_ok e s"
  shows "wp \<in> set (failures (trace s)) \<Longrightarrow>
           socket_result e (snd wp) = None \<and> snd wp \<noteq> - 1 \<and> wp \<in> set (dispensed (trace s))"
    and "distinct (map fst (failures (trace s)))"
    and "w < length (threads s) \<Longrightarrow> taken_by (trace s) w (threads s ! w)"
  using assms by (auto simp: failures_ok_def list_all_iff)

lemma taken_by_mono:
  assumes "taken_by tr w t" and "set (dispensed tr) \<subseteq> set (dispensed tr')"
  shows "taken_by tr' w t"
  using assms by (cases t) auto

lemma failures_ok_update:
  assumes ok: "failures_ok e s" and w: "w < length (threads s)"
    and th: "threads s' = (threads s)[w := t']"
    and sub: "set (dispensed (trace s)) \<subseteq> set (dispensed (trace s'))"
    and fl: "failures (trace s') = failures (trace s)
             \<or> (\<exists>port. failures (trace s') = failures (trace s) @ [(w, port)]
                  \<and> socket_result e port = None \<and> port \<noteq> - 1
                  \<and> (w, port) \<in> set (dispensed (trace s'))
                  \<and> w \<notin> fst ` set (failures (trace s)))"
    and tk: "taken_by (trace s') w t'"
  shows "failures_ok e s'"
proof -
  have a: "socket_result e (snd wp) = None \<and> snd wp \<noteq> - 1 \<and> wp \<in> set (dispensed (trace s'))"
    if "wp \<in> set (failures (trace s'))" for wp
  proof (cases "wp \<in> set (failures (trace s))")
    case True
    then show ?thesis
      using failures_okD(1) [OF ok True] subsetD [OF sub, of wp] by simp
  next
    case False
    then show ?thesis
      using fl that by auto
  qed
  have b: "distinct (map fst (failures (trace s')))"
    using fl failures_okD(2) [OF ok] by auto
  have c: "taken_by (trace s') v (threads s' ! v)" if v: "v < length (threads s')" for v
  proof (cases "v = w")
    case True
    then show ?thesis using w th tk by simp
  next
    case False
    have "taken_by (trace s) v (threads s ! v)"
      using failures_okD(3) [OF ok, of v] v th by simp
    then show ?thesis
      using False th taken_by_mono [OF _ sub] by simp
  qed
  show ?thesis
    unfolding failures_ok_def using a b c by (auto simp: list_all_iff)
qed

lemma body_failure_port:
  assumes "suffix (E_socket None # evs) (fst (worker_body g e thread_id port))"
  shows "socket_result e port = None"
proof (cases "socket_result e port")
  case (Some sock)
  have "E_socket None \<in> set (fst (worker_body g e thread_id port))"
    using assms by (auto simp: suffix_def)
  then show ?thesis
    using Some by (auto simp: fst_worker_body_cases fst_read_banner report_def split: if_splits)
qed simp

lemma failures_ok_step:
  assumes inv: "invariant g e ps s" and r: "returns_ok s" and f: "failures_ok e s"
  shows "failures_ok e (step g e w s)"
proof (cases "w < length (threads s)")
  case False
  then show ?thesis using f by (simp add: step_def)
next
  case w: True
  note ok = threads_okD [OF invariantD(5) [OF inv] w]
  show ?thesis
  proof (cases "threads s ! w")
    case At_top
    show ?thesis
    proof (cases "queue_lock s = None")
      case True
      then have st: "step g e w s = s\<lparr>queue_lock := Some w, threads := (threads s)[w := In_queue]\<rparr>"
        using w At_top by (simp add: step_def)
      show ?thesis
        unfolding st by (intro failures_ok_update [OF f w, where t' = In_queue]) simp_all
    next
      case False
      then have "step g e w s = s"
        using w At_top by (auto simp: step_def)
      then show ?thesis using f by simp
    qed
  next
    case In_queue
    define t' where "t' =
      (if size_q (queue s) \<le> index (queue s) then Leaving (- 1)
       else if 0 \<le> index (queue s) \<and> nat (index (queue s)) < length (ports (queue s))
         then Taking (index (queue s)) (ports (queue s) ! nat (index (queue s)))
         else Crashed)"
    have st: "step g e w s = s\<lparr>threads := (threads s)[w := t']\<rparr>"
      using w In_queue by (simp add: step_def t'_def)
    have t': "taken_by (trace s) w t'"
      by (simp add: t'_def)
    show ?thesis
      unfolding st using t' by (intro failures_ok_update [OF f w, where t' = t']) simp_all
  next
    case (Taking i port)
    have st: "step g e w s
              = s\<lparr>queue := (queue s)\<lparr>index := i + 1\<rparr>, threads := (threads s)[w := Leaving port]\<rparr>"
      using w Taking by (simp add: step_def)
    show ?thesis
      unfolding st by (intro failures_ok_update [OF f w, where t' = "Leaving port"]) simp_all
  next
    case (Leaving port)
    let ?t = "if port = - 1 then Finished
              else (case worker_body g e (int w) port of (evs, fin) \<Rightarrow> after_body port evs fin)"
    have st: "step g e w s
              = s\<lparr>queue_lock := None, trace := trace s @ [(w, port, E_get_next_port port)],
                  threads := (threads s)[w := ?t]\<rparr>"
      using w Leaving by (simp add: step_def)
    have tk: "taken_by (trace s @ [(w, port, E_get_next_port port)]) w ?t"
    proof (cases "port = - 1")
      case True
      then show ?thesis by simp
    next
      case False
      have "fst (worker_body g e (int w) port) \<noteq> []"
        by (rule body_not_empty)
      then have "?t = In_body port (fst (worker_body g e (int w) port))
                        (snd (worker_body g e (int w) port))"
        using False by (simp add: case_prod_beta)
      then show ?thesis
        by (simp add: dispensed_snoc)
    qed
    show ?thesis
      unfolding st using tk
      by (intro failures_ok_update [OF f w, where t' = ?t])
         (auto simp: failures_snoc dispensed_snoc)
  next
    case (In_body port evs fin)
    have nm: "w \<notin> fst ` set (failures (trace s))"
      using returns_okD(1) [OF r w] In_body by (auto simp: met_failure_iff)
    obtain ev evs' where evs: "evs = ev # evs'"
      using ok In_body by (cases evs) auto
    have p: "port \<noteq> - 1" and suf: "suffix (ev # evs') (fst (worker_body g e (int w) port))"
      using ok In_body evs by simp_all
    have d: "(w, port) \<in> set (dispensed (trace s))"
      using failures_okD(3) [OF f w] In_body by simp
    show ?thesis
    proof (cases "ev = E_lock \<and> print_lock s \<noteq> None")
      case True
      then have "step g e w s = s"
        using w In_body evs by (simp add: step_def)
      then show ?thesis using f by simp
    next
      case False
      then have st: "step g e w s
              = s\<lparr>print_lock := (if ev = E_lock then Some w
                                 else if ev = E_unlock then None else print_lock s),
                  trace := trace s @ [(w, port, ev)],
                  threads := (threads s)[w := after_body port evs' fin]\<rparr>"
        using w In_body evs by (auto simp: step_def)
      have sub: "set (dispensed (trace s)) \<subseteq> set (dispensed (trace s @ [(w, port, ev)]))"
        by (auto simp: dispensed_snoc)
      have tk: "taken_by (trace s @ [(w, port, ev)]) w (after_body port evs' fin)"
        using d sub by (cases evs'; cases fin) auto
      have fl: "failures (trace s @ [(w, port, ev)]) = failures (trace s)
             \<or> (\<exists>port'. failures (trace s @ [(w, port, ev)]) = failures (trace s) @ [(w, port')]
                  \<and> socket_result e port' = None \<and> port' \<noteq> - 1
                  \<and> (w, port') \<in> set (dispensed (trace s @ [(w, port, ev)]))
                  \<and> w \<notin> fst ` set (failures (trace s)))"
      proof (cases "ev = E_socket None")
        case True
        have "socket_result e port = None"
          using suf True by (intro body_failure_port [of evs' g e "int w" port]) simp
        then show ?thesis
          using True p d sub nm by (auto simp: failures_snoc)
      next
        case False
        then show ?thesis by (simp add: failures_snoc)
      qed
      show ?thesis
        unfolding st using sub tk fl
        by (intro failures_ok_update [OF f w, where t' = "after_body port evs' fin"]) simp_all
    qed
  next
    case Finished
    then show ?thesis using f w by (simp add: step_def)
  next
    case Crashed
    then show ?thesis using f w by (simp add: step_def)
  qed
qed

lemma failures_ok_run:
  assumes "invariant g e ps s" and "returns_ok s" and "failures_ok e s"
  shows "failures_ok e (run g e sched s)"
  using assms
  by (induction sched arbitrary: s)
     (simp_all add: invariant_step returns_ok_step failures_ok_step)

lemma failures_ok_main: "failures_ok e (main_system n garbage start end)"
  by (simp add: failures_ok_def main_system_def start_threads_def list_all_iff failures_def)

lemma failures_bound:
  assumes inv: "invariant g e ps s" and d: "distinct ps" and f: "failures_ok e s"
  shows "length (failures (trace s)) \<le> length (filter (\<lambda>p. socket_result e p = None) ps)"
proof -
  let ?F = "failures (trace s)"
  let ?D = "filter (\<lambda>port. port \<noteq> - 1) (map snd (dispensed (trace s)))"
  have dd: "distinct ?D"
    by (rule dispensed_distinct [OF inv d])
  have sub: "set ?D \<subseteq> set ps"
  proof -
    have "?D @ taken_in_flight s = take (nat (index (queue s))) ps"
      using invariantD(8) [OF inv] invariantD(2) [OF inv] by (simp add: dispense_ok_def)
    then have "set ?D \<subseteq> set (take (nat (index (queue s))) ps)"
      by (metis set_append Un_upper1)
    then show ?thesis
      using set_take_subset by fastforce
  qed
  have DD: "?D = map snd (filter (\<lambda>wp. snd wp \<noteq> - 1) (dispensed (trace s)))"
    by (simp add: filter_map comp_def)
  have inj: "inj_on snd (set (filter (\<lambda>wp. snd wp \<noteq> - 1) (dispensed (trace s))))"
    using dd unfolding DD by (simp add: distinct_map)
  have Fsub: "set ?F \<subseteq> set (filter (\<lambda>wp. snd wp \<noteq> - 1) (dispensed (trace s)))"
    using failures_okD(1) [OF f] by auto
  have dF: "distinct ?F"
    using failures_okD(2) [OF f] by (rule distinct_map [THEN iffD1, THEN conjunct1])
  have "distinct (map snd ?F)"
    using dF inj Fsub by (auto simp: distinct_map intro: inj_on_subset)
  moreover have "set (map snd ?F) \<subseteq> set (filter (\<lambda>p. socket_result e p = None) ps)"
  proof
    fix p assume "p \<in> set (map snd ?F)"
    then obtain wp where wp: "wp \<in> set ?F" and p: "p = snd wp"
      by auto
    have "socket_result e p = None"
      using failures_okD(1) [OF f wp] p by simp
    moreover have "p \<in> set ?D"
      using Fsub wp p unfolding DD by auto
    ultimately show "p \<in> set (filter (\<lambda>p. socket_result e p = None) ps)"
      using sub by auto
  qed
  ultimately have "length (map snd ?F) \<le> length (filter (\<lambda>p. socket_result e p = None) ps)"
    by (metis distinct_card card_mono List.finite_set card_length le_trans)
  then show ?thesis by simp
qed

lemma some_worker_meets_no_failure:
  assumes inv: "invariant g e ps s" and d: "distinct ps" and f: "failures_ok e s"
    and less: "length (filter (\<lambda>p. socket_result e p = None) ps) < length (threads s)"
  shows "\<exists>v < length (threads s). \<not> met_failure (trace s) v"
proof (rule ccontr)
  assume "\<not> (\<exists>v < length (threads s). \<not> met_failure (trace s) v)"
  then have "{0..<length (threads s)} \<subseteq> set (map fst (failures (trace s)))"
    by (auto simp: met_failure_iff)
  then have "card {0..<length (threads s)} \<le> card (set (map fst (failures (trace s))))"
    by (intro card_mono) simp_all
  also have "\<dots> \<le> length (map fst (failures (trace s)))"
    by (rule card_length)
  finally have "length (threads s) \<le> length (failures (trace s))"
    by simp
  then show False
    using failures_bound [OF inv d f] less by simp
qed

lemma run_append: "run g e (a @ b) s = run g e b (run g e a s)"
  by (induction a arbitrary: s) simp_all

section \<open>Claims about the job queue\<close>

text \<open>
  C1. For a range of ports \<open>1 \<le> start \<le> end \<le> 65535\<close>, the queue built by \<^verbatim>\<open>main\<close> hands
  out the ports \<open>start, start + 1, \<dots>, end\<close> in this order, one per call, whoever the callers
  are and however many calls they make: the results of the calls, in the order of the calls,
  are the ports of the range followed by \<open>-1\<close> for every later call. No port of the range
  equals the exhaustion value \<open>-1\<close>, and once the callers have made at least as many calls
  as there are ports, every port of the range has been returned by exactly one call.
  The same holds for the threads of a scan, with \<^verbatim>\<open>q->lock\<close> as the only means that keeps
  a call together: for any number of threads and any order in which they move, whenever
  no thread holds \<^verbatim>\<open>q->lock\<close> the values other than \<open>-1\<close> returned so far are, in the order
  of the returns, the ports of the range before the cursor; and in a complete scan,
  sockets being available, they are exactly \<open>start, \<dots>, end\<close>.
\<close>

theorem work_queue_dispenses_each_port_once:
  assumes "1 \<le> start" and "start \<le> end" and "end \<le> 65535"
  shows "serve cs (init_queue garbage start end)
           = Inr (zip cs ([start..end] @ replicate (length cs) (- 1)),
                  init_queue garbage start end
                    \<lparr>index := min (end - start + 1) (int (length cs))\<rparr>)
         \<and> - 1 \<notin> set [start..end]
         \<and> (\<forall>p \<in> set [start..end]. end - start + 1 \<le> int (length cs) \<longrightarrow>
              length (filter (\<lambda>r. snd r = p)
                        (zip cs ([start..end] @ replicate (length cs) (- 1)))) = 1)
         \<and> (queue_lock (run g e sched (main_system n garbage start end)) = None \<longrightarrow>
              filter (\<lambda>port. port \<noteq> - 1)
                (map snd (dispensed (trace (run g e sched (main_system n garbage start end)))))
              = take (nat (index (queue (run g e sched (main_system n garbage start end)))))
                  [start..end])
         \<and> ((\<forall>p \<in> set [start..end]. socket_result e p \<noteq> None)
              \<and> all_finished (run g e sched (main_system n garbage start end)) \<longrightarrow>
              filter (\<lambda>port. port \<noteq> - 1)
                (map snd (dispensed (trace (run g e sched (main_system n garbage start end)))))
              = [start..end])"
proof (intro conjI ballI impI)
  show "serve cs (init_queue garbage start end)
           = Inr (zip cs ([start..end] @ replicate (length cs) (- 1)),
                  init_queue garbage start end
                    \<lparr>index := min (end - start + 1) (int (length cs))\<rparr>)"
    using serve_all [OF queue_ok_init [OF assms(2)], of cs garbage]
    by (simp add: ports_init_queue [OF assms(2)] size_init_queue index_init_queue)
  show "- 1 \<notin> set [start..end]"
    using assms(1) by simp
next
  fix p
  assume p: "p \<in> set [start..end]" and enough: "end - start + 1 \<le> int (length cs)"
  let ?rs = "zip cs ([start..end] @ replicate (length cs) (- 1))"
  have len: "length ([start..end] @ replicate (length cs) (- 1 :: int)) \<ge> length cs"
    by simp
  have snd_rs: "map snd ?rs = take (length cs) ([start..end] @ replicate (length cs) (- 1))"
    by (simp add: map_snd_zip_take min_def)
  have "take (length cs) ([start..end] @ replicate (length cs) (- 1))
        = [start..end] @ replicate (length cs - length [start..end]) (- 1)"
    using enough assms(2) by simp
  then have "filter (\<lambda>x. x = p) (map snd ?rs)
        = filter (\<lambda>x. x = p) [start..end]"
    using p assms(1) snd_rs by auto
  moreover have "length (filter (\<lambda>x. x = p) [start..end]) = 1"
    using p by (intro filter_eq_distinct) simp_all
  moreover have "length (filter (\<lambda>r. snd r = p) ?rs)
        = length (filter (\<lambda>x. x = p) (map snd ?rs))"
    by (simp add: filter_map comp_def)
  ultimately show "length (filter (\<lambda>r. snd r = p) ?rs) = 1"
    by simp
next
  let ?s = "run g e sched (main_system n garbage start end)"
  assume "queue_lock ?s = None"
  then show "filter (\<lambda>port. port \<noteq> - 1) (map snd (dispensed (trace ?s)))
             = take (nat (index (queue ?s))) [start..end]"
    by (rule dispensed_in_order [OF assms])
next
  let ?s = "run g e sched (main_system n garbage start end)"
  assume a: "(\<forall>p \<in> set [start..end]. socket_result e p \<noteq> None) \<and> all_finished ?s"
  have inv: "invariant g e [start..end] ?s"
    by (rule invariant_run) (rule invariant_main [OF assms])
  have "0 < length (threads ?s)"
    using clamp_threads_bounds(1) [of n]
    by (simp add: length_threads_run length_threads_main)
  then have ne: "threads ?s \<noteq> []"
    by auto
  have "index (queue ?s) = size_q (queue ?s)"
    using complete_scan_reports(2) [OF inv _ ne] a by blast
  moreover have "size_q (queue ?s) = int (length [start..end])"
    using invariantD(1,2) [OF inv] by (simp add: queue_ok_def)
  ultimately have "take (nat (index (queue ?s))) [start..end] = [start..end]"
    by simp
  moreover have "queue_lock ?s = None"
    using finished_locks_free(2) [OF inv] a by blast
  ultimately show "filter (\<lambda>port. port \<noteq> - 1) (map snd (dispensed (trace ?s))) = [start..end]"
    using dispensed_in_order [OF assms, of g e sched n garbage] by simp
qed

theorem work_queue_dispenses_each_port_once_witness:
  "(1::int) \<le> 79 \<and> (79::int) \<le> 82 \<and> (82::int) \<le> 65535
   \<and> serve [0, 1, 2, 0, 1, 2 :: nat] (init_queue zeroes 79 82)
       = Inr ([(0, 79), (1, 80), (2, 81), (0, 82), (1, - 1), (2, - 1)],
              init_queue zeroes 79 82 \<lparr>index := 4\<rparr>)
   \<and> (80::int) \<in> set [79..82]
   \<and> length (filter (\<lambda>r. snd r = 80)
        [(0 :: nat, 79 :: int), (1, 80), (2, 81), (0, 82), (1, - 1), (2, - 1)]) = 1
   \<and> socket_result listener_80 79 \<noteq> None \<and> socket_result listener_80 80 \<noteq> None
   \<and> socket_result listener_80 81 \<noteq> None \<and> socket_result listener_80 82 \<noteq> None
   \<and> all_finished (run fast_globals listener_80 (concat (replicate 30 [0, 1, 2]))
                     (main_system 3 zeroes 79 82))
   \<and> queue_lock (run fast_globals listener_80 (concat (replicate 30 [0, 1, 2]))
                   (main_system 3 zeroes 79 82)) = None
   \<and> filter (\<lambda>port. port \<noteq> - 1)
        (map snd (dispensed (trace (run fast_globals listener_80
                                      (concat (replicate 30 [0, 1, 2]))
                                      (main_system 3 zeroes 79 82)))))
       = [79, 80, 81, 82]"
proof -
  have h: "(1::int) \<le> 79" "(79::int) \<le> 82" "(82::int) \<le> 65535"
    by simp_all
  have s: "\<forall>p \<in> set [79..82]. socket_result listener_80 p \<noteq> None"
    by (simp add: listener_80_def)
  have s': "socket_result listener_80 79 \<noteq> None \<and> socket_result listener_80 80 \<noteq> None
    \<and> socket_result listener_80 81 \<noteq> None \<and> socket_result listener_80 82 \<noteq> None"
    by (simp add: listener_80_def)
  have f: "all_finished (run fast_globals listener_80 (concat (replicate 30 [0, 1, 2]))
                     (main_system 3 zeroes 79 82))"
    by code_simp
  have l: "queue_lock (run fast_globals listener_80 (concat (replicate 30 [0, 1, 2]))
                   (main_system 3 zeroes 79 82)) = None"
    by code_simp
  note t = work_queue_dispenses_each_port_once
             [OF h, where cs = "[0, 1, 2, 0, 1, 2 :: nat]" and garbage = zeroes
                and g = fast_globals and e = listener_80
                and sched = "concat (replicate 30 [0, 1, 2])" and n = 3]
  have one: "serve [0, 1, 2, 0, 1, 2 :: nat] (init_queue zeroes 79 82)
       = Inr ([(0, 79), (1, 80), (2, 81), (0, 82), (1, - 1), (2, - 1)],
              init_queue zeroes 79 82 \<lparr>index := 4\<rparr>)"
    using t [THEN conjunct1] by (simp add: upto_79_82)
  have two: "length (filter (\<lambda>r. snd r = 80)
        [(0 :: nat, 79 :: int), (1, 80), (2, 81), (0, 82), (1, - 1), (2, - 1)]) = 1"
    by simp
  have three: "filter (\<lambda>port. port \<noteq> - 1)
        (map snd (dispensed (trace (run fast_globals listener_80
                                      (concat (replicate 30 [0, 1, 2]))
                                      (main_system 3 zeroes 79 82)))))
       = [79, 80, 81, 82]"
    using t s f by (simp add: upto_79_82)
  show ?thesis
    using h s' f l one two three by simp
qed

text \<open>
  C10. On a well-formed queue (cursor between 0 and size, size the length of the array)
  no sequence of calls ever reads outside the array, and the queue stays well-formed, so
  the cursor never exceeds size. Once the cursor has reached size, a call returns \<open>-1\<close>
  and leaves the queue as it is, and so does every call of any further list of callers.
  The same holds for the threads of a scan over a range of ports
  \<open>1 \<le> start \<le> end \<le> 65535\<close>: whatever their number and the order in which they move, the
  cursor stays between 0 and size and no thread ever reads outside the array.
\<close>

theorem exhausted_queue_stays_exhausted:
  assumes "queue_ok q"
  shows "(\<exists>rs q'. serve cs q = Inr (rs, q') \<and> queue_ok q' \<and> index q' \<le> size_q q')
         \<and> (size_q q \<le> index q \<longrightarrow>
              get_next_port q = Inr (- 1, q) \<and> serve cs q = Inr (map (\<lambda>c. (c, - 1)) cs, q))
         \<and> (1 \<le> start \<and> start \<le> end \<and> end \<le> 65535 \<longrightarrow>
              queue_ok (queue (run g e sched (main_system n garbage start end)))
              \<and> list_all (\<lambda>t. t \<noteq> Crashed)
                    (threads (run g e sched (main_system n garbage start end))))"
proof (intro conjI impI)
  have "queue_ok (q\<lparr>index := min (size_q q) (index q + int (length cs))\<rparr>)"
    using assms by (auto simp: queue_ok_def min_def)
  then show "\<exists>rs q'. serve cs q = Inr (rs, q') \<and> queue_ok q' \<and> index q' \<le> size_q q'"
    using serve_all [OF assms, of cs] by (auto simp: queue_ok_def)
next
  assume "size_q q \<le> index q"
  then show "get_next_port q = Inr (- 1, q)"
    by (simp add: get_next_port_def)
next
  assume "size_q q \<le> index q"
  then show "serve cs q = Inr (map (\<lambda>c. (c, - 1)) cs, q)"
    by (rule serve_exhausted)
next
  let ?s = "run g e sched (main_system n garbage start end)"
  assume r: "1 \<le> start \<and> start \<le> end \<and> end \<le> 65535"
  then have inv: "invariant g e [start..end] ?s"
    by (intro invariant_run invariant_main) simp_all
  show "queue_ok (queue ?s)"
    using invariantD(1) [OF inv] .
  have "threads ?s ! w \<noteq> Crashed" if "w < length (threads ?s)" for w
    using threads_okD [OF invariantD(5) [OF inv] that] by auto
  then show "list_all (\<lambda>t. t \<noteq> Crashed) (threads ?s)"
    by (simp add: list_all_length)
qed

theorem exhausted_queue_stays_exhausted_witness:
  "queue_ok \<lparr>ports = [79, 80], size_q = 2, index = 2\<rparr>
   \<and> get_next_port \<lparr>ports = [79, 80], size_q = 2, index = 2\<rparr>
       = Inr (- 1, \<lparr>ports = [79, 80], size_q = 2, index = 2\<rparr>)
   \<and> serve [5, 6, 7 :: nat] \<lparr>ports = [79, 80], size_q = 2, index = 2\<rparr>
       = Inr ([(5, - 1), (6, - 1), (7, - 1)], \<lparr>ports = [79, 80], size_q = 2, index = 2\<rparr>)
   \<and> (1::int) \<le> 79 \<and> (79::int) \<le> 80 \<and> (80::int) \<le> 65535
   \<and> queue_ok (queue (run fast_globals listener_80 (concat (replicate 20 [0, 1, 2]))
                         (main_system 3 zeroes 79 80)))
   \<and> threads (run fast_globals listener_80 (concat (replicate 20 [0, 1, 2]))
                (main_system 3 zeroes 79 80)) = [Finished, Finished, Finished]"
proof -
  have ok: "queue_ok \<lparr>ports = [79, 80], size_q = 2, index = 2\<rparr>"
    by (simp add: queue_ok_def)
  have th: "threads (run fast_globals listener_80 (concat (replicate 20 [0, 1, 2]))
                (main_system 3 zeroes 79 80)) = [Finished, Finished, Finished]"
    by code_simp
  show ?thesis
    using ok th
      exhausted_queue_stays_exhausted
        [OF ok, where cs = "[5, 6, 7 :: nat]" and start = 79 and ?end = 80
           and g = fast_globals and e = listener_80
           and sched = "concat (replicate 20 [0, 1, 2])" and n = 3 and garbage = zeroes]
    by simp
qed

section \<open>Claims about one pass through the body of the worker\<close>

text \<open>
  C6. In full mode (\<^verbatim>\<open>FULL_MODE\<close> not zero), when the socket was created and \<^verbatim>\<open>connect\<close>
  returned 0, the body makes exactly one call of \<^verbatim>\<open>recv\<close>, with the limit
  \<^verbatim>\<open>sizeof(banner) - 1\<close> = 511 into the buffer of 512 bytes. With \<open>n\<close> the value \<^verbatim>\<open>recv\<close>
  returned: \<open>n\<close> is below 512; if \<open>n \<le> 0\<close> the pass ends on the path without banner
  (\<open>OpenNoData\<close>); if \<open>n > 0\<close> it ends on the path with banner (\<open>OpenWithBanner\<close>), and
  the bytes kept are the first \<open>n\<close> bytes the peer delivered, cut to 512 bytes (a cut that
  removes nothing, as \<open>n \<le> 511\<close>).
\<close>

theorem full_mode_reads_once_into_buffer:
  assumes "FULL_MODE g \<noteq> 0"
    and "socket_result e port = Some s"
    and "connect_result e (htons port) = 0"
  shows "filter is_recv (fst (worker_body g e thread_id port))
           = [E_recv s (512 - 1) (fst (recv (recv_data e (htons port)) (map (stack e) [0..<512]) (512 - 1)))]
         \<and> length (snd (recv (recv_data e (htons port)) (map (stack e) [0..<512]) (512 - 1))) = 512
         \<and> fst (recv (recv_data e (htons port)) (map (stack e) [0..<512]) (512 - 1)) < 512
         \<and> (fst (recv (recv_data e (htons port)) (map (stack e) [0..<512]) (512 - 1)) \<le> 0 \<longrightarrow>
               snd (worker_body g e thread_id port) = Looped OpenNoData)
         \<and> (0 < fst (recv (recv_data e (htons port)) (map (stack e) [0..<512]) (512 - 1)) \<longrightarrow>
               (\<exists>data. recv_data e (htons port) = Some data
                  \<and> snd (worker_body g e thread_id port)
                      = Looped (OpenWithBanner
                          (take 512 (take (nat (fst (recv (recv_data e (htons port))
                                                       (map (stack e) [0..<512]) (512 - 1)))) data)))))"
proof -
  obtain n banner where r: "recv (recv_data e (htons port)) (map (stack e) [0..<512]) 511 = (n, banner)"
    by (cases "recv (recv_data e (htons port)) (map (stack e) [0..<512]) 511") auto
  have rb: "read_banner g e s port = ([E_recv s 511 n], n, banner)"
    using read_banner_full [OF assms(1), of e s port] r by simp
  note wb = worker_body_open [OF assms(2,3) rb, of thread_id]
  have le: "n \<le> 511" and len: "length banner = 512"
    using recv_facts(1,2) [OF r] by simp_all
  have pos: "\<exists>data. recv_data e (htons port) = Some data
               \<and> take (nat n) banner = take 512 (take (nat n) data)" if npos: "0 < n"
  proof -
    obtain data where d: "recv_data e (htons port) = Some data"
      "take (nat n) banner = take (nat n) data"
      using recv_facts(4) [OF r] npos by auto
    have "take 512 (take (nat n) data) = take (nat n) data"
      using le by (simp add: min_def)
    then show ?thesis using d by simp
  qed
  show ?thesis
    using wb le len pos by (auto simp: r)
qed

theorem full_mode_reads_once_into_buffer_witness:
  "FULL_MODE default_globals \<noteq> 0
   \<and> socket_result listener_80 80 = Some 80
   \<and> connect_result listener_80 (htons 80) = 0
   \<and> filter is_recv (fst (worker_body default_globals listener_80 0 80)) = [E_recv 80 511 3]
   \<and> snd (worker_body default_globals listener_80 0 80) = Looped (OpenWithBanner (''hi'' @ [NL]))"
proof -
  have h: "FULL_MODE default_globals \<noteq> 0" "socket_result listener_80 80 = Some 80"
    "connect_result listener_80 (htons 80) = 0"
    by (simp_all add: default_globals_def listener_80_def htons_def)
  have d: "recv_data listener_80 (htons 80) = Some (''hi'' @ [NL])"
    by (simp add: listener_80_def)
  show ?thesis
    using h full_mode_reads_once_into_buffer [OF h, of 0]
    by (simp add: d recv_Some)
qed

text \<open>
  C7. In fast mode (\<^verbatim>\<open>FULL_MODE\<close> zero), when the socket was created and \<^verbatim>\<open>connect\<close>
  returned 0, the body makes no call of \<^verbatim>\<open>recv\<close> and ends on the path without banner
  (\<open>OpenNoData\<close>); the line written to the file is
  \<^verbatim>\<open>[Thread <id>] Port <port> OPEN\<close>, followed by \<^verbatim>\<open> (<service>)\<close> when the service name
  is not empty, and neither the file line nor the console line contains the text
  \<^verbatim>\<open> - banner: \<close>.
\<close>

theorem fast_mode_never_reads:
  assumes "FULL_MODE g = 0"
    and "socket_result e port = Some s"
    and "connect_result e (htons port) = 0"
  shows "filter is_recv (fst (worker_body g e thread_id port)) = []
         \<and> snd (worker_body g e thread_id port) = Looped OpenNoData
         \<and> filter is_fprintf (fst (worker_body g e thread_id port))
             = [E_fprintf (''[Thread '' @ fmt_d thread_id @ ''] Port '' @ fmt_d port @ '' OPEN''
                  @ (if service_name port = [] then [] else '' ('' @ service_name port @ '')'')
                  @ [NL])]
         \<and> (\<forall>l. E_fprintf l \<in> set (fst (worker_body g e thread_id port))
                  \<or> E_printf l \<in> set (fst (worker_body g e thread_id port))
               \<longrightarrow> \<not> sublist '' - banner: '' l)"
proof -
  note wb = worker_body_open [OF assms(2,3) read_banner_fast [OF assms(1)], of thread_id]
  have nocolon: "CHR '':'' \<notin> set l"
    if "E_fprintf l \<in> set (fst (worker_body g e thread_id port))
        \<or> E_printf l \<in> set (fst (worker_body g e thread_id port))" for l
    using that colon_free_lines [of 0 thread_id port "map (stack e) [0..<512]"]
    by (auto simp: wb)
  have nosub: "\<forall>l. E_fprintf l \<in> set (fst (worker_body g e thread_id port))
                  \<or> E_printf l \<in> set (fst (worker_body g e thread_id port))
               \<longrightarrow> \<not> sublist '' - banner: '' l"
    using nocolon sublist_has_colon by blast
  have rest: "filter is_recv (fst (worker_body g e thread_id port)) = []"
    "snd (worker_body g e thread_id port) = Looped OpenNoData"
    "filter is_fprintf (fst (worker_body g e thread_id port))
             = [E_fprintf (''[Thread '' @ fmt_d thread_id @ ''] Port '' @ fmt_d port @ '' OPEN''
                  @ (if service_name port = [] then [] else '' ('' @ service_name port @ '')'')
                  @ [NL])]"
    by (simp_all add: wb file_line_no_banner)
  show ?thesis
    using rest nosub by blast
qed

theorem fast_mode_never_reads_witness:
  "FULL_MODE fast_globals = 0
   \<and> socket_result listener_80 80 = Some 80
   \<and> connect_result listener_80 (htons 80) = 0
   \<and> filter is_recv (fst (worker_body fast_globals listener_80 0 80)) = []
   \<and> snd (worker_body fast_globals listener_80 0 80) = Looped OpenNoData
   \<and> filter is_fprintf (fst (worker_body fast_globals listener_80 0 80))
       = [E_fprintf (''[Thread 0] Port 80 OPEN (HTTP)'' @ [NL])]"
proof -
  have h: "FULL_MODE fast_globals = 0" "socket_result listener_80 80 = Some 80"
    "connect_result listener_80 (htons 80) = 0"
    by (simp_all add: fast_globals_def listener_80_def htons_def)
  have f: "fmt_d 0 = ''0''" "fmt_d 80 = ''80''"
    by (simp_all add: fmt_d_def digits.simps)
  show ?thesis
    using h fast_mode_never_reads [OF h, of 0]
    by (simp add: f service_name_def)
qed

text \<open>
  C8. When the socket was created and \<^verbatim>\<open>connect\<close> returned a value other than 0, the pass
  ends on the path \<open>Closed\<close>: its calls are \<^verbatim>\<open>socket\<close>, the two \<^verbatim>\<open>setsockopt\<close>, \<^verbatim>\<open>connect\<close>
  and \<^verbatim>\<open>closesocket\<close>, with no \<^verbatim>\<open>printf\<close> and no \<^verbatim>\<open>fprintf\<close>. Hence a worker that scans a
  whole range of ports \<open>1 \<le> start \<le> end \<le> 65535\<close> (sockets being available) writes as
  many lines to the file, and as many to the console, as there are ports of the range on
  which \<^verbatim>\<open>connect\<close> returned 0.
\<close>

theorem closed_port_writes_nothing:
  shows "(socket_result e port = Some s \<and> connect_result e (htons port) \<noteq> 0 \<longrightarrow>
            snd (worker_body g e thread_id port) = Looped Closed
            \<and> fst (worker_body g e thread_id port)
                = [E_socket (Some s),
                   E_setsockopt s SO_RCVTIMEO (TIMEOUT_MS g),
                   E_setsockopt s SO_SNDTIMEO (TIMEOUT_MS g),
                   E_connect s (htons port) (connect_result e (htons port)),
                   E_closesocket s]
            \<and> filter is_printf (fst (worker_body g e thread_id port)) = []
            \<and> filter is_fprintf (fst (worker_body g e thread_id port)) = [])
         \<and> (1 \<le> start \<and> start \<le> end \<and> end \<le> 65535
              \<and> (\<forall>p \<in> set [start..end]. socket_result e p \<noteq> None) \<longrightarrow>
             (\<exists>evs q'. worker g e thread_id (init_queue garbage start end) = Inr (evs, q')
                \<and> length (filter is_fprintf evs)
                    = length (filter (\<lambda>p. connect_result e (htons p) = 0) [start..end])
                \<and> length (filter is_printf evs)
                    = length (filter (\<lambda>p. connect_result e (htons p) = 0) [start..end])))"
proof (intro conjI impI)
  assume "socket_result e port = Some s \<and> connect_result e (htons port) \<noteq> 0"
  then have wb: "worker_body g e thread_id port =
           ([E_socket (Some s),
             E_setsockopt s SO_RCVTIMEO (TIMEOUT_MS g),
             E_setsockopt s SO_SNDTIMEO (TIMEOUT_MS g),
             E_connect s (htons port) (connect_result e (htons port)),
             E_closesocket s], Looped Closed)"
    by (simp add: worker_body_closed)
  show "snd (worker_body g e thread_id port) = Looped Closed"
    and "fst (worker_body g e thread_id port)
                = [E_socket (Some s),
                   E_setsockopt s SO_RCVTIMEO (TIMEOUT_MS g),
                   E_setsockopt s SO_SNDTIMEO (TIMEOUT_MS g),
                   E_connect s (htons port) (connect_result e (htons port)),
                   E_closesocket s]"
    and "filter is_printf (fst (worker_body g e thread_id port)) = []"
    and "filter is_fprintf (fst (worker_body g e thread_id port)) = []"
    by (simp_all add: wb)
next
  assume a: "1 \<le> start \<and> start \<le> end \<and> end \<le> 65535
              \<and> (\<forall>p \<in> set [start..end]. socket_result e p \<noteq> None)"
  let ?q = "init_queue garbage start end"
  have ok: "queue_ok ?q" and ps: "drop (nat (index ?q)) (ports ?q) = [start..end]"
    using a by (simp_all add: queue_ok_init ports_init_queue index_init_queue)
  have run: "worker g e thread_id ?q =
           Inr (concat (map (\<lambda>p. E_get_next_port p # fst (worker_body g e thread_id p))
                          [start..end])
                @ [E_get_next_port (- 1)],
                ?q\<lparr>index := size_q ?q\<rparr>)"
    using worker_complete [OF ok, of e g thread_id] a unfolding ps by auto
  have cnt: "length (filter is_fprintf
            (concat (map (\<lambda>p. E_get_next_port p # fst (worker_body g e thread_id p)) [start..end])))
         = length (filter (\<lambda>p. connect_result e (htons p) = 0) [start..end])"
    "length (filter is_printf
            (concat (map (\<lambda>p. E_get_next_port p # fst (worker_body g e thread_id p)) [start..end])))
         = length (filter (\<lambda>p. connect_result e (htons p) = 0) [start..end])"
    using count_lines_of_run [of "[start..end]" e g thread_id] a by blast+
  show "\<exists>evs q'. worker g e thread_id (init_queue garbage start end) = Inr (evs, q')
                \<and> length (filter is_fprintf evs)
                    = length (filter (\<lambda>p. connect_result e (htons p) = 0) [start..end])
                \<and> length (filter is_printf evs)
                    = length (filter (\<lambda>p. connect_result e (htons p) = 0) [start..end])"
    unfolding run using cnt by simp
qed

theorem closed_port_writes_nothing_witness:
  "socket_result listener_80 81 = Some 81
   \<and> connect_result listener_80 (htons 81) \<noteq> 0
   \<and> snd (worker_body default_globals listener_80 0 81) = Looped Closed
   \<and> fst (worker_body default_globals listener_80 0 81)
       = [E_socket (Some 81), E_setsockopt 81 SO_RCVTIMEO 200,
          E_setsockopt 81 SO_SNDTIMEO 200, E_connect 81 81 (- 1), E_closesocket 81]
   \<and> filter is_fprintf (fst (worker_body default_globals listener_80 0 81)) = []
   \<and> (1::int) \<le> 79 \<and> (79::int) \<le> 82 \<and> (82::int) \<le> 65535
   \<and> socket_result listener_80 79 \<noteq> None \<and> socket_result listener_80 80 \<noteq> None
   \<and> socket_result listener_80 81 \<noteq> None \<and> socket_result listener_80 82 \<noteq> None
   \<and> (\<exists>evs q'. worker default_globals listener_80 0 (init_queue zeroes 79 82) = Inr (evs, q')
         \<and> length (filter is_fprintf evs) = 1 \<and> length (filter is_printf evs) = 1)"
proof -
  have h: "socket_result listener_80 81 = Some 81 \<and> connect_result listener_80 (htons 81) \<noteq> 0"
    by (simp add: listener_80_def htons_def)
  have r: "(1::int) \<le> 79 \<and> (79::int) \<le> 82 \<and> (82::int) \<le> 65535
             \<and> (\<forall>p \<in> set [79..82]. socket_result listener_80 p \<noteq> None)"
    by (simp add: listener_80_def)
  have v: "htons 81 = 81" "connect_result listener_80 81 = - 1" "TIMEOUT_MS default_globals = 200"
    by (simp_all add: listener_80_def htons_def default_globals_def)
  have c: "filter (\<lambda>p. connect_result listener_80 (htons p) = 0) [79..82] = [80]"
    by (simp add: upto_79_82 listener_80_def htons_def)
  note t = closed_port_writes_nothing
             [of listener_80 81 81 default_globals 0 79 82 zeroes]
  have one: "snd (worker_body default_globals listener_80 0 81) = Looped Closed
            \<and> fst (worker_body default_globals listener_80 0 81)
                = [E_socket (Some 81), E_setsockopt 81 SO_RCVTIMEO 200,
                   E_setsockopt 81 SO_SNDTIMEO 200, E_connect 81 81 (- 1), E_closesocket 81]
            \<and> filter is_fprintf (fst (worker_body default_globals listener_80 0 81)) = []"
    using t [THEN conjunct1, THEN mp, OF h] by (simp add: v)
  have two: "\<exists>evs q'. worker default_globals listener_80 0 (init_queue zeroes 79 82) = Inr (evs, q')
         \<and> length (filter is_fprintf evs) = 1 \<and> length (filter is_printf evs) = 1"
    using t [THEN conjunct2, THEN mp, OF r] unfolding c by simp
  have r': "socket_result listener_80 79 \<noteq> None \<and> socket_result listener_80 80 \<noteq> None
    \<and> socket_result listener_80 81 \<noteq> None \<and> socket_result listener_80 82 \<noteq> None"
    by (simp add: listener_80_def)
  show ?thesis
    using h r' one two by simp
qed

text \<open>
  C9. In one pass through the body, a socket that was created is released exactly once,
  by the last call of the pass, on each of its paths (connection refused, open without
  banner, open with banner); when no socket was created the pass makes no other call.
  Over a whole run of the worker the calls respect the discipline of \<open>socket_use\<close>: no
  socket is created while another is held, none is closed twice, none is used after it
  was closed, and none is held at the end.
\<close>

theorem socket_released_exactly_once:
  shows "(socket_result e port = Some s \<longrightarrow>
            hd (fst (worker_body g e thread_id port)) = E_socket (Some s)
            \<and> filter is_closesocket (fst (worker_body g e thread_id port)) = [E_closesocket s]
            \<and> last (fst (worker_body g e thread_id port)) = E_closesocket s)
         \<and> (socket_result e port = None \<longrightarrow>
            fst (worker_body g e thread_id port) = [E_socket None])
         \<and> socket_use No_socket (fst (worker_body g e thread_id port)) = Some No_socket
         \<and> (\<forall>evs q'. worker g e thread_id q = Inr (evs, q') \<longrightarrow>
               socket_use No_socket evs = Some No_socket)"
  using worker_socket_use [of g e thread_id q]
  by (auto simp: closesocket_of_body ends_of_body socket_use_body worker_body_no_socket)

theorem socket_released_exactly_once_witness:
  "socket_result listener_80 80 = Some 80
   \<and> filter is_closesocket (fst (worker_body default_globals listener_80 0 80)) = [E_closesocket 80]
   \<and> last (fst (worker_body default_globals listener_80 0 80)) = E_closesocket 80
   \<and> socket_result starved_at_79 79 = None
   \<and> fst (worker_body default_globals starved_at_79 0 79) = [E_socket None]
   \<and> worker default_globals listener_80 0 \<lparr>ports = [80], size_q = 1, index = 1\<rparr>
       = Inr ([E_get_next_port (- 1)], \<lparr>ports = [80], size_q = 1, index = 1\<rparr>)
   \<and> socket_use No_socket [E_get_next_port (- 1)] = Some No_socket"
proof -
  have h: "socket_result listener_80 80 = Some 80" "socket_result starved_at_79 79 = None"
    by (simp_all add: listener_80_def starved_at_79_def)
  have w: "worker default_globals listener_80 0 \<lparr>ports = [80], size_q = 1, index = 1\<rparr>
       = Inr ([E_get_next_port (- 1)], \<lparr>ports = [80], size_q = 1, index = 1\<rparr>)"
    by (rule worker_exhausted) simp
  note a = socket_released_exactly_once
      [of listener_80 80 80 default_globals 0 "\<lparr>ports = [80], size_q = 1, index = 1\<rparr>"]
  note b = socket_released_exactly_once
      [of starved_at_79 79 7 default_globals 0 "\<lparr>ports = [80], size_q = 1, index = 1\<rparr>"]
  show ?thesis
    using h w a b by simp
qed

text \<open>
  C5, as the claim states it, fails: the line the program writes for thread 0 and port 80,
  with the banner \<^verbatim>\<open>hi\n\<close>, begins with \<^verbatim>\<open>[Thread \<close> and not with \<^verbatim>\<open>[Worker \<close>, and the
  newline of the banner is written as it is, not escaped.
\<close>

theorem log_line_claimed_form_counterexample:
  "filter is_fprintf (fst (worker_body default_globals listener_80 0 80))
     = [E_fprintf (''[Thread 0] Port 80 OPEN - banner: hi'' @ [NL] @ '' (HTTP)'' @ [NL])]
   \<and> \<not> prefix ''[Worker '' (''[Thread 0] Port 80 OPEN - banner: hi'' @ [NL] @ '' (HTTP)'' @ [NL])"
proof -
  have h: "socket_result listener_80 80 = Some 80" "connect_result listener_80 (htons 80) = 0"
    by (simp_all add: listener_80_def htons_def)
  have f: "fmt_d 0 = ''0''" "fmt_d 80 = ''80''"
    by (simp_all add: fmt_d_def digits.simps)
  have "file_line 0 80 3 (''hi'' @ [NL] @ drop 3 (map (stack listener_80) [0..<512]))
        = log_record_format 0 80 (Some (''hi'' @ [NL])) (service_name 80)"
    by (subst file_line_banner) (simp_all add: NUL_def NL_def)
  also have "\<dots> = ''[Thread 0] Port 80 OPEN - banner: hi'' @ [NL] @ '' (HTTP)'' @ [NL]"
    by (simp add: log_record_format_def f service_name_def NUL_def NL_def)
  finally show ?thesis
    by (simp add: worker_body_open [OF h read_banner_listener_80])
qed

text \<open>
  C5, amended. Every line a pass through the body appends to the file has the form
  \<^verbatim>\<open>[Thread <id>] Port <port> OPEN\<close>, then \<^verbatim>\<open> - banner: <bytes>\<close>, then \<^verbatim>\<open> (<service>)\<close>,
  then a newline, where the bytes of the banner are written as they are up to the first
  NUL byte: the banner part is there exactly when the pass took the path with a banner
  (\<^verbatim>\<open>recv\<close> returned \<open>n > 0\<close>), the service part exactly when \<^verbatim>\<open>service_name\<close> returns a
  name that is not empty; a pass on the paths \<open>Closed\<close> or \<^verbatim>\<open>return NULL\<close> appends no line.
\<close>

theorem log_line_has_thread_format:
  "filter is_fprintf (fst (worker_body g e thread_id port)) =
     (case snd (worker_body g e thread_id port) of
        Returned \<Rightarrow> []
      | Looped Closed \<Rightarrow> []
      | Looped OpenNoData \<Rightarrow>
          [E_fprintf (log_record_format thread_id port None (service_name port))]
      | Looped (OpenWithBanner b) \<Rightarrow>
          [E_fprintf (log_record_format thread_id port (Some b) (service_name port))])"
proof (cases "socket_result e port")
  case None
  then show ?thesis by (simp add: worker_body_no_socket)
next
  case (Some s)
  show ?thesis
  proof (cases "connect_result e (htons port) = 0")
    case False
    then show ?thesis by (simp add: worker_body_closed [OF Some])
  next
    case True
    obtain reading n banner where rb: "read_banner g e s port = (reading, n, banner)"
      by (cases "read_banner g e s port") auto
    have r: "filter is_fprintf reading = []"
      using fst_read_banner [of g e s port] rb by (auto split: if_splits)
    have b: "nat n < length banner" if "0 < n"
      using read_banner_bounds [OF rb] that by simp
    show ?thesis
      using r b by (simp add: worker_body_open [OF Some True rb] file_line_banner file_line_plain)
  qed
qed

section \<open>Claims about the loop of the worker\<close>

text \<open>
  C2, as the claim states it, fails: on a queue of the ports 79 to 82, when \<^verbatim>\<open>socket\<close> fails
  while port 79 is probed, the worker returns after this one port (line 248 is
  \<^verbatim>\<open>return NULL\<close>, not \<^verbatim>\<open>continue\<close>); it does not go on to exhaustion, as the queue it leaves
  still hands out port 80.
\<close>

theorem socket_failure_counterexample:
  "worker default_globals starved_at_79 0 (init_queue zeroes 79 82)
     = Inr ([E_get_next_port 79, E_socket None],
            \<lparr>ports = [79, 80, 81, 82], size_q = 4, index = 1\<rparr>)
   \<and> get_next_port \<lparr>ports = [79, 80, 81, 82], size_q = 4, index = 1\<rparr>
     = Inr (80, \<lparr>ports = [79, 80, 81, 82], size_q = 4, index = 2\<rparr>)"
proof -
  let ?q = "\<lparr>ports = [79, 80, 81, 82], size_q = 4, index = 0\<rparr>"
  have q: "init_queue zeroes 79 82 = ?q"
    by (simp add: init_queue_eq upto_79_82)
  have ok: "queue_ok ?q" "index ?q < size_q ?q" "ports ?q ! nat (index ?q) \<noteq> - 1"
    by (simp_all add: queue_ok_def)
  have b: "worker_body default_globals starved_at_79 0 79 = ([E_socket None], Returned)"
    by (rule worker_body_no_socket) (simp add: starved_at_79_def)
  show ?thesis
    unfolding q worker_step [OF ok] using b by (simp add: get_next_port_def)
qed

text \<open>
  C2, amended. When \<^verbatim>\<open>socket\<close> fails for the port a worker has just taken, that worker
  returns at once: it makes no further call for this port and takes no further port.
  The queue it leaves is well-formed, with the cursor just behind the port taken, and
  another worker that runs on it, if sockets are available for the remaining ports,
  handles every remaining port in turn, up to exhaustion.

  The failure ends this one thread and no other. The two moves of a thread that
  returns from \<^verbatim>\<open>get_next_port\<close> with such a port and then calls \<^verbatim>\<open>socket\<close> release
  \<^verbatim>\<open>q->lock\<close>, add the two calls to the trace and leave this thread returned; the queue,
  \<^verbatim>\<open>print_lock\<close> and the places of all other threads are as before.

  In every state of a scan of a range \<open>1 \<le> start \<le> end \<le> 65535\<close>, whatever the number of
  threads asked for and the order in which they move:
  \<^item> a thread that has met a failure of \<^verbatim>\<open>socket\<close> has returned;
  \<^item> a thread that has returned without meeting a failure found the queue exhausted: the
    threads that meet no failure go on taking ports until none is left;
  \<^item> when the scan is complete and some thread has met no failure, every port of the
    range has been handed out; ports are left in the queue only when every thread has
    met a failure;
  \<^item> when the scan is complete, the ports reported are those handed out for which a
    socket was made and \<^verbatim>\<open>connect\<close> returned 0, each once;
  \<^item> a port for which \<^verbatim>\<open>socket\<close> fails is never reported, and no port is handed out twice
    (the port of the failure is not tried again);
  \<^item> when the scan is complete and \<^verbatim>\<open>socket\<close> fails for fewer ports of the range than
    there are threads, every port of the range has been handed out and the ports
    reported are those of the range for which a socket was made and \<^verbatim>\<open>connect\<close>
    returned 0;
  \<^item> the scan can be completed from this state: some order of moves lets every thread
    return.

  The threads that meet no failure are not all the other threads: a thread other than
  the one considered can meet a failure of its own, at another port, and return as well.
\<close>

theorem socket_failure_ends_only_that_worker:
  "(queue_ok q \<and> index q < size_q q \<and> ports q ! nat (index q) \<noteq> - 1
      \<and> socket_result e (ports q ! nat (index q)) = None \<longrightarrow>
     worker g e thread_id q
       = Inr ([E_get_next_port (ports q ! nat (index q)), E_socket None],
              q\<lparr>index := index q + 1\<rparr>)
     \<and> queue_ok (q\<lparr>index := index q + 1\<rparr>)
     \<and> (- 1 \<notin> set (drop (nat (index q + 1)) (ports q))
          \<and> (\<forall>p \<in> set (drop (nat (index q + 1)) (ports q)). socket_result e p \<noteq> None) \<longrightarrow>
         worker g e other_id (q\<lparr>index := index q + 1\<rparr>)
           = Inr (concat (map (\<lambda>p. E_get_next_port p # fst (worker_body g e other_id p))
                            (drop (nat (index q + 1)) (ports q)))
                  @ [E_get_next_port (- 1)],
                  q\<lparr>index := size_q q\<rparr>)))
   \<and> (socket_result e port = None \<and> port \<noteq> - 1
        \<and> w < length (threads s) \<and> threads s ! w = Leaving port \<longrightarrow>
       step g e w (step g e w s)
         = s\<lparr>queue_lock := None,
             trace := trace s @ [(w, port, E_get_next_port port), (w, port, E_socket None)],
             threads := (threads s)[w := Finished]\<rparr>)
   \<and> (1 \<le> start \<and> start \<le> end \<and> end \<le> 65535 \<longrightarrow>
       (\<forall>v < length (threads (run g e sched (main_system n garbage start end))).
          met_failure (trace (run g e sched (main_system n garbage start end))) v \<longrightarrow>
          threads (run g e sched (main_system n garbage start end)) ! v = Finished)
     \<and> (\<forall>v < length (threads (run g e sched (main_system n garbage start end))).
          threads (run g e sched (main_system n garbage start end)) ! v = Finished
          \<and> \<not> met_failure (trace (run g e sched (main_system n garbage start end))) v \<longrightarrow>
          index (queue (run g e sched (main_system n garbage start end)))
            = size_q (queue (run g e sched (main_system n garbage start end))))
     \<and> (all_finished (run g e sched (main_system n garbage start end))
          \<and> (\<exists>v < length (threads (run g e sched (main_system n garbage start end))).
                \<not> met_failure (trace (run g e sched (main_system n garbage start end))) v) \<longrightarrow>
         filter (\<lambda>port. port \<noteq> - 1)
           (map snd (dispensed (trace (run g e sched (main_system n garbage start end)))))
           = [start..end])
     \<and> (all_finished (run g e sched (main_system n garbage start end)) \<longrightarrow>
         mset (reported (trace (run g e sched (main_system n garbage start end))))
           = mset (filter (opens e)
                     (take (nat (index (queue (run g e sched (main_system n garbage start end)))))
                        [start..end])))
     \<and> (\<forall>p \<in> set (reported (trace (run g e sched (main_system n garbage start end)))).
          socket_result e p \<noteq> None)
     \<and> distinct (filter (\<lambda>port. port \<noteq> - 1)
          (map snd (dispensed (trace (run g e sched (main_system n garbage start end))))))
     \<and> (all_finished (run g e sched (main_system n garbage start end))
          \<and> length (filter (\<lambda>p. socket_result e p = None) [start..end])
              < nat (clamp_threads n) \<longrightarrow>
         filter (\<lambda>port. port \<noteq> - 1)
           (map snd (dispensed (trace (run g e sched (main_system n garbage start end)))))
           = [start..end]
         \<and> mset (reported (trace (run g e sched (main_system n garbage start end))))
           = mset (filter (opens e) [start..end]))
     \<and> (\<exists>sc. all_finished (run g e (sched @ sc) (main_system n garbage start end))))"
proof (intro conjI)
  show "queue_ok q \<and> index q < size_q q \<and> ports q ! nat (index q) \<noteq> - 1
      \<and> socket_result e (ports q ! nat (index q)) = None \<longrightarrow>
     worker g e thread_id q
       = Inr ([E_get_next_port (ports q ! nat (index q)), E_socket None],
              q\<lparr>index := index q + 1\<rparr>)
     \<and> queue_ok (q\<lparr>index := index q + 1\<rparr>)
     \<and> (- 1 \<notin> set (drop (nat (index q + 1)) (ports q))
          \<and> (\<forall>p \<in> set (drop (nat (index q + 1)) (ports q)). socket_result e p \<noteq> None) \<longrightarrow>
         worker g e other_id (q\<lparr>index := index q + 1\<rparr>)
           = Inr (concat (map (\<lambda>p. E_get_next_port p # fst (worker_body g e other_id p))
                            (drop (nat (index q + 1)) (ports q)))
                  @ [E_get_next_port (- 1)],
                  q\<lparr>index := size_q q\<rparr>))"
  proof (intro impI conjI)
    assume a: "queue_ok q \<and> index q < size_q q \<and> ports q ! nat (index q) \<noteq> - 1
      \<and> socket_result e (ports q ! nat (index q)) = None"
    then have a1: "queue_ok q" and a2: "index q < size_q q"
      and a3: "ports q ! nat (index q) \<noteq> - 1"
      and a4: "socket_result e (ports q ! nat (index q)) = None"
      by simp_all
    show "worker g e thread_id q
           = Inr ([E_get_next_port (ports q ! nat (index q)), E_socket None],
                  q\<lparr>index := index q + 1\<rparr>)"
      unfolding worker_step [OF a1 a2 a3]
      by (simp add: worker_body_no_socket [OF a4])
    show ok': "queue_ok (q\<lparr>index := index q + 1\<rparr>)"
      using a1 a2 by (simp add: queue_ok_def)
    assume "- 1 \<notin> set (drop (nat (index q + 1)) (ports q))
              \<and> (\<forall>p \<in> set (drop (nat (index q + 1)) (ports q)). socket_result e p \<noteq> None)"
    then show "worker g e other_id (q\<lparr>index := index q + 1\<rparr>)
               = Inr (concat (map (\<lambda>p. E_get_next_port p # fst (worker_body g e other_id p))
                                (drop (nat (index q + 1)) (ports q)))
                      @ [E_get_next_port (- 1)],
                      q\<lparr>index := size_q q\<rparr>)"
      using worker_complete [OF ok', of e g other_id] by simp
  qed
  show "socket_result e port = None \<and> port \<noteq> - 1
        \<and> w < length (threads s) \<and> threads s ! w = Leaving port \<longrightarrow>
       step g e w (step g e w s)
         = s\<lparr>queue_lock := None,
             trace := trace s @ [(w, port, E_get_next_port port), (w, port, E_socket None)],
             threads := (threads s)[w := Finished]\<rparr>"
    by (simp add: step_def worker_body_no_socket)
  let ?S = "run g e sched (main_system n garbage start end)"
  show "1 \<le> start \<and> start \<le> end \<and> end \<le> 65535 \<longrightarrow>
       (\<forall>v < length (threads ?S). met_failure (trace ?S) v \<longrightarrow> threads ?S ! v = Finished)
     \<and> (\<forall>v < length (threads ?S).
          threads ?S ! v = Finished \<and> \<not> met_failure (trace ?S) v \<longrightarrow>
          index (queue ?S) = size_q (queue ?S))
     \<and> (all_finished ?S \<and> (\<exists>v < length (threads ?S). \<not> met_failure (trace ?S) v) \<longrightarrow>
         filter (\<lambda>port. port \<noteq> - 1) (map snd (dispensed (trace ?S))) = [start..end])
     \<and> (all_finished ?S \<longrightarrow>
         mset (reported (trace ?S))
           = mset (filter (opens e) (take (nat (index (queue ?S))) [start..end])))
     \<and> (\<forall>p \<in> set (reported (trace ?S)). socket_result e p \<noteq> None)
     \<and> distinct (filter (\<lambda>port. port \<noteq> - 1) (map snd (dispensed (trace ?S))))
     \<and> (all_finished ?S
          \<and> length (filter (\<lambda>p. socket_result e p = None) [start..end])
              < nat (clamp_threads n) \<longrightarrow>
         filter (\<lambda>port. port \<noteq> - 1) (map snd (dispensed (trace ?S))) = [start..end]
         \<and> mset (reported (trace ?S)) = mset (filter (opens e) [start..end]))
     \<and> (\<exists>sc. all_finished (run g e (sched @ sc) (main_system n garbage start end)))"
  proof (intro impI)
    assume "1 \<le> start \<and> start \<le> end \<and> end \<le> 65535"
    then have range: "1 \<le> start" "start \<le> end" "end \<le> 65535"
      by simp_all
    have inv0: "invariant g e [start..end] (main_system n garbage start end)"
      by (rule invariant_main [OF range])
    have inv: "invariant g e [start..end] ?S"
      by (rule invariant_run [OF inv0])
    have r: "returns_ok ?S"
      by (rule returns_ok_run [OF inv0 returns_ok_main])
    have t1: "\<forall>v < length (threads ?S). met_failure (trace ?S) v \<longrightarrow> threads ?S ! v = Finished"
      using returns_okD(1) [OF r] by blast
    have t2: "\<forall>v < length (threads ?S).
          threads ?S ! v = Finished \<and> \<not> met_failure (trace ?S) v \<longrightarrow>
          index (queue ?S) = size_q (queue ?S)"
      using returned_at_exhaustion [OF inv r] by blast
    have t3: "all_finished ?S \<and> (\<exists>v < length (threads ?S). \<not> met_failure (trace ?S) v) \<longrightarrow>
         filter (\<lambda>port. port \<noteq> - 1) (map snd (dispensed (trace ?S))) = [start..end]"
    proof
      assume a: "all_finished ?S \<and> (\<exists>v < length (threads ?S). \<not> met_failure (trace ?S) v)"
      then obtain v where v: "v < length (threads ?S)" and nm: "\<not> met_failure (trace ?S) v"
        by blast
      have "threads ?S ! v = Finished"
        using a v by (simp add: all_finished_def list_all_length)
      then have "index (queue ?S) = size_q (queue ?S)"
        using t2 v nm by blast
      then show "filter (\<lambda>port. port \<noteq> - 1) (map snd (dispensed (trace ?S))) = [start..end]"
        using a by (intro all_dispensed [OF inv]) simp_all
    qed
    have t4: "all_finished ?S \<longrightarrow>
         mset (reported (trace ?S))
           = mset (filter (opens e) (take (nat (index (queue ?S))) [start..end]))"
      using complete_scan_reports_taken [OF inv] by blast
    have t5: "\<forall>p \<in> set (reported (trace ?S)). socket_result e p \<noteq> None"
      using reported_open [OF inv] by blast
    have t6: "distinct (filter (\<lambda>port. port \<noteq> - 1) (map snd (dispensed (trace ?S))))"
      by (rule dispensed_distinct [OF inv]) simp
    have t8: "all_finished ?S
          \<and> length (filter (\<lambda>p. socket_result e p = None) [start..end])
              < nat (clamp_threads n) \<longrightarrow>
         filter (\<lambda>port. port \<noteq> - 1) (map snd (dispensed (trace ?S))) = [start..end]
         \<and> mset (reported (trace ?S)) = mset (filter (opens e) [start..end])"
    proof
      assume a: "all_finished ?S
          \<and> length (filter (\<lambda>p. socket_result e p = None) [start..end])
              < nat (clamp_threads n)"
      have fo: "failures_ok e ?S"
        by (rule failures_ok_run [OF inv0 returns_ok_main failures_ok_main])
      have "length (filter (\<lambda>p. socket_result e p = None) [start..end]) < length (threads ?S)"
        using a by (simp add: length_threads_run length_threads_main)
      then have sv: "\<exists>v < length (threads ?S). \<not> met_failure (trace ?S) v"
        by (intro some_worker_meets_no_failure [OF inv _ fo]) simp_all
      then have all: "filter (\<lambda>port. port \<noteq> - 1) (map snd (dispensed (trace ?S))) = [start..end]"
        using t3 a by blast
      obtain v where v: "v < length (threads ?S)" and nm: "\<not> met_failure (trace ?S) v"
        using sv by blast
      have "threads ?S ! v = Finished"
        using a v by (simp add: all_finished_def list_all_length)
      then have "index (queue ?S) = size_q (queue ?S)"
        using t2 v nm by blast
      then have "nat (index (queue ?S)) = length [start..end]"
        using invariantD(1) [OF inv] invariantD(2) [OF inv] by (simp add: queue_ok_def)
      then have "take (nat (index (queue ?S))) [start..end] = [start..end]"
        by simp
      then have "mset (reported (trace ?S)) = mset (filter (opens e) [start..end])"
        using t4 a by simp
      then show "filter (\<lambda>port. port \<noteq> - 1) (map snd (dispensed (trace ?S))) = [start..end]
         \<and> mset (reported (trace ?S)) = mset (filter (opens e) [start..end])"
        using all by blast
    qed
    have t7: "\<exists>sc. all_finished (run g e (sched @ sc) (main_system n garbage start end))"
      using complete_run_exists [OF inv] by (simp add: run_append)
    show "(\<forall>v < length (threads ?S). met_failure (trace ?S) v \<longrightarrow> threads ?S ! v = Finished)
     \<and> (\<forall>v < length (threads ?S).
          threads ?S ! v = Finished \<and> \<not> met_failure (trace ?S) v \<longrightarrow>
          index (queue ?S) = size_q (queue ?S))
     \<and> (all_finished ?S \<and> (\<exists>v < length (threads ?S). \<not> met_failure (trace ?S) v) \<longrightarrow>
         filter (\<lambda>port. port \<noteq> - 1) (map snd (dispensed (trace ?S))) = [start..end])
     \<and> (all_finished ?S \<longrightarrow>
         mset (reported (trace ?S))
           = mset (filter (opens e) (take (nat (index (queue ?S))) [start..end])))
     \<and> (\<forall>p \<in> set (reported (trace ?S)). socket_result e p \<noteq> None)
     \<and> distinct (filter (\<lambda>port. port \<noteq> - 1) (map snd (dispensed (trace ?S))))
     \<and> (all_finished ?S
          \<and> length (filter (\<lambda>p. socket_result e p = None) [start..end])
              < nat (clamp_threads n) \<longrightarrow>
         filter (\<lambda>port. port \<noteq> - 1) (map snd (dispensed (trace ?S))) = [start..end]
         \<and> mset (reported (trace ?S)) = mset (filter (opens e) [start..end]))
     \<and> (\<exists>sc. all_finished (run g e (sched @ sc) (main_system n garbage start end)))"
      using t1 t2 t3 t4 t5 t6 t7 t8 by blast
  qed
qed

theorem socket_failure_ends_only_that_worker_witness:
  "queue_ok \<lparr>ports = [79, 81], size_q = 2, index = 0\<rparr>
   \<and> socket_result starved_at_79 79 = None
   \<and> worker default_globals starved_at_79 0 \<lparr>ports = [79, 81], size_q = 2, index = 0\<rparr>
       = Inr ([E_get_next_port 79, E_socket None], \<lparr>ports = [79, 81], size_q = 2, index = 1\<rparr>)
   \<and> socket_result starved_at_79 81 \<noteq> None
   \<and> worker default_globals starved_at_79 1 \<lparr>ports = [79, 81], size_q = 2, index = 1\<rparr>
       = Inr ([E_get_next_port 81, E_socket (Some 81), E_setsockopt 81 SO_RCVTIMEO 200,
               E_setsockopt 81 SO_SNDTIMEO 200, E_connect 81 81 (- 1), E_closesocket 81,
               E_get_next_port (- 1)],
              \<lparr>ports = [79, 81], size_q = 2, index = 2\<rparr>)
   \<and> threads (run fast_globals starved_at_79 [0, 0, 0] (main_system 2 zeroes 79 80))
       = [Leaving 79, At_top]
   \<and> threads (step fast_globals starved_at_79 0 (step fast_globals starved_at_79 0
         (run fast_globals starved_at_79 [0, 0, 0] (main_system 2 zeroes 79 80))))
       = [Finished, At_top]
   \<and> all_finished (run fast_globals starved_at_79 (replicate 5 0 @ replicate 17 1)
                     (main_system 2 zeroes 79 80))
   \<and> met_failure (trace (run fast_globals starved_at_79 (replicate 5 0 @ replicate 17 1)
                            (main_system 2 zeroes 79 80))) 0
   \<and> \<not> met_failure (trace (run fast_globals starved_at_79 (replicate 5 0 @ replicate 17 1)
                              (main_system 2 zeroes 79 80))) 1
   \<and> threads (run fast_globals starved_at_79 (replicate 5 0 @ replicate 17 1)
                (main_system 2 zeroes 79 80)) ! 0 = Finished
   \<and> index (queue (run fast_globals starved_at_79 (replicate 5 0 @ replicate 17 1)
                     (main_system 2 zeroes 79 80))) = 2
   \<and> filter (\<lambda>port. port \<noteq> - 1)
       (map snd (dispensed (trace (run fast_globals starved_at_79
                                     (replicate 5 0 @ replicate 17 1)
                                     (main_system 2 zeroes 79 80))))) = [79, 80]
   \<and> mset (reported (trace (run fast_globals starved_at_79 (replicate 5 0 @ replicate 17 1)
                               (main_system 2 zeroes 79 80)))) = mset [80]
   \<and> length (filter (\<lambda>p. socket_result starved_at_79 p = None) [79..80]) = 1
   \<and> nat (clamp_threads 2) = 2
   \<and> mset (reported (trace (run fast_globals starved_at_79 (replicate 5 0 @ replicate 17 1)
                               (main_system 2 zeroes 79 80))))
     = mset (filter (opens starved_at_79) [79..80])
   \<and> all_finished (run fast_globals starved_at_79 (replicate 5 0) (main_system 1 zeroes 79 80))
   \<and> index (queue (run fast_globals starved_at_79 (replicate 5 0)
                     (main_system 1 zeroes 79 80))) = 1
   \<and> size_q (queue (run fast_globals starved_at_79 (replicate 5 0)
                      (main_system 1 zeroes 79 80))) = 2
   \<and> met_failure (trace (run fast_globals starved_at_79 (replicate 5 0)
                            (main_system 1 zeroes 79 80))) 0"
proof -
  let ?s = "run fast_globals starved_at_79 [0, 0, 0] (main_system 2 zeroes 79 80)"
  let ?q = "\<lparr>ports = [79, 81], size_q = 2, index = 0\<rparr>"
  let ?S = "run fast_globals starved_at_79 (replicate 5 0 @ replicate 17 1)
              (main_system 2 zeroes 79 80)"
  have h: "queue_ok ?q \<and> index ?q < size_q ?q \<and> ports ?q ! nat (index ?q) \<noteq> - 1
    \<and> socket_result starved_at_79 (ports ?q ! nat (index ?q)) = None"
    by (simp add: queue_ok_def starved_at_79_def)
  have s: "socket_result starved_at_79 79 = None" "socket_result starved_at_79 81 \<noteq> None"
    by (simp_all add: starved_at_79_def)
  have th: "threads ?s = [Leaving 79, At_top]"
    by code_simp
  have at: "threads ?s ! 0 = Leaving 79" and len: "0 < length (threads ?s)"
    unfolding th by simp_all
  have pre: "socket_result starved_at_79 79 = None \<and> (79::int) \<noteq> - 1
              \<and> 0 < length (threads ?s) \<and> threads ?s ! 0 = Leaving 79"
  proof -
    have "(79::int) \<noteq> - 1"
      by simp
    with s(1) at len show ?thesis
      by blast
  qed
  note moves = socket_failure_ends_only_that_worker
      [where e = starved_at_79 and g = fast_globals and port = 79 and w = 0 and s = ?s,
        THEN conjunct2, THEN conjunct1, THEN mp, OF pre]
  have "threads (step fast_globals starved_at_79 0 (step fast_globals starved_at_79 0 ?s))
        = (threads ?s)[0 := Finished]"
  proof -
    have sel: "threads (r\<lparr>queue_lock := a, trace := b, threads := c\<rparr>) = c"
      for r :: system and a b c
      by simp
    show ?thesis
      unfolding moves by (rule sel)
  qed
  then have sys: "threads (step fast_globals starved_at_79 0
                     (step fast_globals starved_at_79 0 ?s)) = [Finished, At_top]"
    unfolding th by simp
  have b: "fst (worker_body default_globals starved_at_79 1 81)
           = [E_socket (Some 81), E_setsockopt 81 SO_RCVTIMEO 200,
               E_setsockopt 81 SO_SNDTIMEO 200, E_connect 81 81 (- 1), E_closesocket 81]"
    by (simp add: fst_worker_body_cases starved_at_79_def listener_80_def htons_def
          default_globals_def)
  have w: "queue_ok ?q
   \<and> socket_result starved_at_79 79 = None
   \<and> worker default_globals starved_at_79 0 ?q
       = Inr ([E_get_next_port 79, E_socket None], \<lparr>ports = [79, 81], size_q = 2, index = 1\<rparr>)
   \<and> socket_result starved_at_79 81 \<noteq> None
   \<and> worker default_globals starved_at_79 1 \<lparr>ports = [79, 81], size_q = 2, index = 1\<rparr>
       = Inr ([E_get_next_port 81, E_socket (Some 81), E_setsockopt 81 SO_RCVTIMEO 200,
               E_setsockopt 81 SO_SNDTIMEO 200, E_connect 81 81 (- 1), E_closesocket 81,
               E_get_next_port (- 1)],
              \<lparr>ports = [79, 81], size_q = 2, index = 2\<rparr>)"
    using h s
      socket_failure_ends_only_that_worker
        [where q = ?q and e = starved_at_79 and g = default_globals and thread_id = 0
           and other_id = 1, THEN conjunct1, THEN mp, OF h]
    by (simp add: b)
  have range: "(1::int) \<le> 79 \<and> (79::int) \<le> 80 \<and> (80::int) \<le> 65535"
    by simp
  have ev: "all_finished ?S \<and> met_failure (trace ?S) 0 \<and> \<not> met_failure (trace ?S) 1
            \<and> size_q (queue ?S) = 2 \<and> length (threads ?S) = 2"
    by code_simp
  then have fin: "all_finished ?S" and m0: "met_failure (trace ?S) 0"
    and m1: "\<not> met_failure (trace ?S) 1" and sz: "size_q (queue ?S) = 2"
    and l0: "0 < length (threads ?S)" and l1: "1 < length (threads ?S)"
    by simp_all
  note scan = socket_failure_ends_only_that_worker
      [where e = starved_at_79 and g = fast_globals
         and sched = "replicate 5 0 @ replicate 17 1" and n = 2 and garbage = zeroes
         and start = 79,
        THEN conjunct2, THEN conjunct2, THEN mp, OF range]
  have t1: "threads ?S ! 0 = Finished"
    using scan [THEN conjunct1] l0 m0 by blast
  have t1': "threads ?S ! 1 = Finished"
    using fin l1 by (simp add: all_finished_def list_all_length)
  have "index (queue ?S) = size_q (queue ?S)"
    using scan [THEN conjunct2, THEN conjunct1] l1 t1' m1 by blast
  then have idx: "index (queue ?S) = 2"
    using sz by simp
  have u: "[79..80] = [79, 80 :: int]"
    by (simp add: upto.simps)
  have "filter (\<lambda>port. port \<noteq> - 1) (map snd (dispensed (trace ?S))) = [79..80]"
    using scan [THEN conjunct2, THEN conjunct2, THEN conjunct1] fin l1 m1 by blast
  then have t3: "filter (\<lambda>port. port \<noteq> - 1) (map snd (dispensed (trace ?S))) = [79, 80]"
    unfolding u .
  have o: "filter (opens starved_at_79) (take (nat 2) [79, 80]) = [80]"
    by (simp add: opens_def starved_at_79_def listener_80_def htons_def)
  have "mset (reported (trace ?S))
        = mset (filter (opens starved_at_79) (take (nat (index (queue ?S))) [79..80]))"
    using scan [THEN conjunct2, THEN conjunct2, THEN conjunct2, THEN conjunct1] fin by blast
  then have t4: "mset (reported (trace ?S)) = mset [80]"
    unfolding idx u o .
  have c1: "length (filter (\<lambda>p. socket_result starved_at_79 p = None) [79..80]) = 1"
    by (simp add: u starved_at_79_def)
  have c2: "nat (clamp_threads 2) = 2"
    by (simp add: clamp_threads_def)
  have "length (filter (\<lambda>p. socket_result starved_at_79 p = None) [79..80])
        < nat (clamp_threads 2)"
    unfolding c1 c2 by simp
  then have t8: "mset (reported (trace ?S)) = mset (filter (opens starved_at_79) [79..80])"
    using scan [THEN conjunct2, THEN conjunct2, THEN conjunct2, THEN conjunct2,
                THEN conjunct2, THEN conjunct2, THEN conjunct1] fin
    by blast
  let ?S1 = "run fast_globals starved_at_79 (replicate 5 0) (main_system 1 zeroes 79 80)"
  have ev1: "all_finished ?S1 \<and> index (queue ?S1) = 1 \<and> size_q (queue ?S1) = 2
             \<and> length (threads ?S1) = 1"
    by code_simp
  then have fin1: "all_finished ?S1" and idx1: "index (queue ?S1) = 1"
    and sz1: "size_q (queue ?S1) = 2" and k0: "0 < length (threads ?S1)"
    by simp_all
  have left: "index (queue ?S1) \<noteq> size_q (queue ?S1)"
    unfolding idx1 sz1 by simp
  have r0: "threads ?S1 ! 0 = Finished"
    using fin1 k0 by (simp add: all_finished_def list_all_length)
  note scan1 = socket_failure_ends_only_that_worker
      [where e = starved_at_79 and g = fast_globals
         and sched = "replicate 5 0" and n = 1 and garbage = zeroes and start = 79,
        THEN conjunct2, THEN conjunct2, THEN mp, OF range]
  have f1: "met_failure (trace ?S1) 0"
    using scan1 [THEN conjunct2, THEN conjunct1] k0 r0 left by blast
  show ?thesis
    using w th sys fin m0 m1 t1 idx t3 t4 c1 c2 t8 fin1 idx1 sz1 f1 by blast
qed

section \<open>Claims about the threads of a scan\<close>

text \<open>
  C3, as the claim states it, fails. Take the range 79 to 80, the fast mode, and a machine
  on which \<^verbatim>\<open>socket\<close> fails while port 79 is probed; port 80 has a listener. With one
  thread the scan is complete after the thread has returned at port 79 (line 248), and
  no port is reported. With two threads the second thread goes on to port 80 and reports
  it. The two complete scans differ in the ports reported, with the same range, mode and
  answers of the environment.
\<close>

theorem worker_count_claim_counterexample:
  "all_finished (run fast_globals starved_at_79 (replicate 5 0) (main_system 1 zeroes 79 80))
   \<and> reported (trace (run fast_globals starved_at_79 (replicate 5 0)
                         (main_system 1 zeroes 79 80))) = []
   \<and> all_finished (run fast_globals starved_at_79 (replicate 5 0 @ replicate 17 1)
                     (main_system 2 zeroes 79 80))
   \<and> reported (trace (run fast_globals starved_at_79 (replicate 5 0 @ replicate 17 1)
                         (main_system 2 zeroes 79 80))) = [80]"
  by code_simp

text \<open>
  C3, amended. For a range of ports \<open>1 \<le> start \<le> end \<le> 65535\<close> and an environment in which
  \<^verbatim>\<open>socket\<close> succeeds for every port of the range, every complete scan, whatever
  the number of threads asked for and whatever the order in which the threads move,
  reports in the file exactly the ports of the range on which \<^verbatim>\<open>connect\<close> returned 0, each
  once, and the same ports on the console; so a scan with \<open>n\<close> threads and a scan with one
  thread report the same set of ports. For every number of threads asked for there is an
  order of moves that completes the scan.
\<close>

theorem worker_count_does_not_change_open_ports:
  assumes "1 \<le> start" and "start \<le> end" and "end \<le> 65535"
    and "\<forall>p \<in> set [start..end]. socket_result e p \<noteq> None"
    and "all_finished (run g e sched (main_system n garbage start end))"
    and "all_finished (run g e sched1 (main_system 1 garbage1 start end))"
  shows "mset (reported (trace (run g e sched (main_system n garbage start end))))
           = mset (filter (\<lambda>p. connect_result e (htons p) = 0) [start..end])
         \<and> displayed (trace (run g e sched (main_system n garbage start end)))
           = reported (trace (run g e sched (main_system n garbage start end)))
         \<and> set (reported (trace (run g e sched (main_system n garbage start end))))
           = set (reported (trace (run g e sched1 (main_system 1 garbage1 start end))))
         \<and> (\<exists>sc. all_finished (run g e sc (main_system k garbage2 start end)))"
proof -
  have inv: "invariant g e [start..end] (run g e sc (main_system k gb start end))" for sc k gb
    by (rule invariant_run) (rule invariant_main [OF assms(1-3)])
  have r: "mset (reported (trace (run g e sc (main_system k gb start end))))
           = mset (filter (\<lambda>p. connect_result e (htons p) = 0) [start..end])"
    if "all_finished (run g e sc (main_system k gb start end))" for sc k gb
  proof (rule complete_scan_reports(1) [OF inv that _ assms(4)])
    have "0 < length (threads (run g e sc (main_system k gb start end)))"
      using clamp_threads_bounds(1) [of k]
      by (simp add: length_threads_run length_threads_main)
    then show "threads (run g e sc (main_system k gb start end)) \<noteq> []"
      by auto
  qed
  have "set (reported (trace (run g e sched (main_system n garbage start end))))
        = set_mset (mset (reported (trace (run g e sched (main_system n garbage start end)))))"
    by simp
  also have "\<dots> = set_mset (mset (reported (trace (run g e sched1 (main_system 1 garbage1 start end)))))"
    unfolding r [OF assms(5)] r [OF assms(6)] ..
  finally have same: "set (reported (trace (run g e sched (main_system n garbage start end))))
           = set (reported (trace (run g e sched1 (main_system 1 garbage1 start end))))"
    by simp
  have free: "print_lock (run g e sched (main_system n garbage start end)) = None"
    by (rule finished_locks_free(1) [OF inv assms(5)])
  have both: "displayed (trace (run g e sched (main_system n garbage start end)))
           = reported (trace (run g e sched (main_system n garbage start end)))"
    using outputs_agree [OF inv free] by simp
  have ex: "\<exists>sc. all_finished (run g e sc (main_system k garbage2 start end))"
    using complete_run_exists [OF invariant_main [OF assms(1-3)]] .
  show ?thesis
    using r [OF assms(5)] both same ex by blast
qed

theorem worker_count_does_not_change_open_ports_witness:
  "(1::int) \<le> 80 \<and> (80::int) \<le> 81 \<and> (81::int) \<le> 65535
   \<and> socket_result listener_80 80 \<noteq> None \<and> socket_result listener_80 81 \<noteq> None
   \<and> all_finished (run fast_globals listener_80 (concat (replicate 20 [0, 1]))
                     (main_system 2 zeroes 80 81))
   \<and> all_finished (run fast_globals listener_80 (replicate 26 0) (main_system 1 zeroes 80 81))
   \<and> mset (reported (trace (run fast_globals listener_80 (concat (replicate 20 [0, 1]))
                               (main_system 2 zeroes 80 81)))) = mset [80]
   \<and> set (reported (trace (run fast_globals listener_80 (concat (replicate 20 [0, 1]))
                              (main_system 2 zeroes 80 81))))
     = set (reported (trace (run fast_globals listener_80 (replicate 26 0)
                                (main_system 1 zeroes 80 81))))"
proof -
  have h: "(1::int) \<le> 80" "(80::int) \<le> 81" "(81::int) \<le> 65535"
    by simp_all
  have u: "[80..81] = [80, 81 :: int]"
    by (simp add: upto.simps)
  have s: "\<forall>p \<in> set [80..81]. socket_result listener_80 p \<noteq> None"
    by (simp add: u listener_80_def)
  have s': "socket_result listener_80 80 \<noteq> None \<and> socket_result listener_80 81 \<noteq> None"
    by (simp add: listener_80_def)
  have f2: "all_finished (run fast_globals listener_80 (concat (replicate 20 [0, 1]))
                     (main_system 2 zeroes 80 81))"
    by code_simp
  have f1: "all_finished (run fast_globals listener_80 (replicate 26 0) (main_system 1 zeroes 80 81))"
    by code_simp
  have c: "filter (\<lambda>p. connect_result listener_80 (htons p) = 0) [80..81] = [80]"
    by (simp add: u listener_80_def htons_def)
  note t = worker_count_does_not_change_open_ports [OF h s f2 f1, unfolded c]
  show ?thesis
    using h s' f2 f1 t by blast
qed

text \<open>
  C4. For a range of ports \<open>1 \<le> start \<le> end \<le> 65535\<close>, any number of threads and any order in
  which they move, the calls on the two outputs that the trace holds are, in this order,
  the records of the threads that locked \<^verbatim>\<open>print_lock\<close>, in the order of the locks: each
  record is the lock, the \<^verbatim>\<open>printf\<close> of the console line, the \<^verbatim>\<open>fprintf\<close> of the file line, the
  \<^verbatim>\<open>fflush\<close> and the unlock of one thread for the one port it reports, with no call of
  another thread on the outputs in between; only the last record can be unfinished, and
  it is whole as soon as no thread holds \<^verbatim>\<open>print_lock\<close>. Then the file holds one line for
  each record, in the same order, and each line is the file line of the thread and the
  port of its record. At no time are two threads between the lock and the unlock. (Each \<^verbatim>\<open>printf\<close> and \<^verbatim>\<open>fprintf\<close> is one call of the C library and is
  one move of the model.)
\<close>

theorem record_writes_are_indivisible:
  assumes "1 \<le> start" and "start \<le> end" and "end \<le> 65535"
  shows "prefix (sink_trace (trace (run g e sched (main_system n garbage start end))))
           (concat (map (record_calls g e)
              (started (trace (run g e sched (main_system n garbage start end))))))
         \<and> (print_lock (run g e sched (main_system n garbage start end)) = None \<longrightarrow>
              sink_trace (trace (run g e sched (main_system n garbage start end)))
                = concat (map (record_calls g e)
                    (started (trace (run g e sched (main_system n garbage start end)))))
              \<and> log_file (trace (run g e sched (main_system n garbage start end)))
                = map (\<lambda>(w, port). file_line (int w) port (fst (banner_read g e port))
                                      (snd (banner_read g e port)))
                    (started (trace (run g e sched (main_system n garbage start end)))))
         \<and> (\<forall>w v. w < length (threads (run g e sched (main_system n garbage start end)))
                \<and> v < length (threads (run g e sched (main_system n garbage start end)))
                \<and> in_print_section (threads (run g e sched (main_system n garbage start end)) ! w)
                \<and> in_print_section (threads (run g e sched (main_system n garbage start end)) ! v)
              \<longrightarrow> w = v)"
proof -
  let ?s = "run g e sched (main_system n garbage start end)"
  have inv: "invariant g e [start..end] ?s"
    by (rule invariant_run) (rule invariant_main [OF assms])
  note iv = invariantD [OF inv]
  have eq: "sink_trace (trace ?s) @ rest_of_block ?s
            = concat (map (record_calls g e) (started (trace ?s)))"
    using iv(7) blocks_of_started [OF iv(9), of g] by (simp add: sink_ok_def)
  have pre: "prefix (sink_trace (trace ?s)) (concat (map (record_calls g e) (started (trace ?s))))"
    using eq by (metis prefixI)
  have whole: "sink_trace (trace ?s) = concat (map (record_calls g e) (started (trace ?s)))"
    if "print_lock ?s = None"
    using eq that by (simp add: rest_of_block_def)
  have lf: "log_file (trace ?s)
                = map (\<lambda>(w, port). file_line (int w) port (fst (banner_read g e port))
                                      (snd (banner_read g e port)))
                    (started (trace ?s))"
    if "print_lock ?s = None"
    by (subst log_file_sink) (simp add: whole [OF that] log_file_records)
  have excl: "w = v"
    if "w < length (threads ?s)" "v < length (threads ?s)"
      "in_print_section (threads ?s ! w)" "in_print_section (threads ?s ! v)" for w v
    using locks_okD(2) [OF iv(4) that(1)] locks_okD(2) [OF iv(4) that(2)] that(3,4) by simp
  show ?thesis
    using pre whole lf excl by blast
qed

theorem record_writes_are_indivisible_witness:
  "(1::int) \<le> 80 \<and> (80::int) \<le> 81 \<and> (81::int) \<le> 65535
   \<and> print_lock (run fast_globals listeners_80_81 (concat (replicate 20 [0, 1]))
                   (main_system 2 zeroes 80 81)) = None
   \<and> started (trace (run fast_globals listeners_80_81 (concat (replicate 20 [0, 1]))
                        (main_system 2 zeroes 80 81))) = [(0, 80), (1, 81)]
   \<and> log_file (trace (run fast_globals listeners_80_81 (concat (replicate 20 [0, 1]))
                         (main_system 2 zeroes 80 81)))
       = [''[Thread 0] Port 80 OPEN (HTTP)'' @ [NL], ''[Thread 1] Port 81 OPEN'' @ [NL]]"
proof -
  let ?s = "run fast_globals listeners_80_81 (concat (replicate 20 [0, 1]))
              (main_system 2 zeroes 80 81)"
  have h: "(1::int) \<le> 80" "(80::int) \<le> 81" "(81::int) \<le> 65535"
    by simp_all
  have pl: "print_lock ?s = None"
    by code_simp
  have st: "started (trace ?s) = [(0, 80), (1, 81)]"
    by code_simp
  have f: "map (\<lambda>(w, port). file_line (int w) port
                   (fst (banner_read fast_globals listeners_80_81 port))
                   (snd (banner_read fast_globals listeners_80_81 port)))
             [(0, 80), (1, 81)]
           = [''[Thread 0] Port 80 OPEN (HTTP)'' @ [NL], ''[Thread 1] Port 81 OPEN'' @ [NL]]"
    by code_simp
  have "log_file (trace ?s)
        = [''[Thread 0] Port 80 OPEN (HTTP)'' @ [NL], ''[Thread 1] Port 81 OPEN'' @ [NL]]"
    using record_writes_are_indivisible
            [OF h, of fast_globals listeners_80_81 "concat (replicate 20 [0, 1])" 2 zeroes]
          pl
    unfolding st f by blast
  then show ?thesis
    using pl st by simp
qed

end
